theory Spec2Isabelle
  imports Main "HOL-Library.Sublist"
begin

section \<open>formatMapping.py: the generator of the KtxImporter format tables\<close>

text \<open>
  The script \<^verbatim>\<open>src/MagnumPlugins/KtxImporter/formatMapping.py\<close> scans two headers with
  regular expressions, builds a list of \<^verbatim>\<open>Format\<close> tuples and writes two tables.
  Text is modelled as \<^typ>\<open>string\<close>, one \<^typ>\<open>char\<close> per character; the character
  classes are those of Python's \<^verbatim>\<open>re\<close> on the ASCII range, which is what both
  headers are written in (a byte above 0x7F belongs to no class here).
  The interpreter is taken to run with assertions enabled, as the script's
  \<^verbatim>\<open>#!/usr/bin/env python3\<close> line starts it, and paths are POSIX paths.
\<close>

subsection \<open>Character classes of \<^verbatim>\<open>re\<close>\<close>

definition is_space :: "char \<Rightarrow> bool" where
  \<comment> \<open>\<^verbatim>\<open>\s\<close>: tab, newline, vertical tab, form feed, carriage return, the four
      separators 0x1C..0x1F and the space.\<close>
  "is_space c = (let n = (of_char c :: nat) in (9 \<le> n \<and> n \<le> 13) \<or> (28 \<le> n \<and> n \<le> 32))"

definition is_digit :: "char \<Rightarrow> bool" where
  \<comment> \<open>\<^verbatim>\<open>\d\<close>\<close>
  "is_digit c = (let n = (of_char c :: nat) in 48 \<le> n \<and> n \<le> 57)"

definition is_word :: "char \<Rightarrow> bool" where
  \<comment> \<open>\<^verbatim>\<open>\w\<close>: letters, digits and the underscore.\<close>
  "is_word c = (let n = (of_char c :: nat) in
     (48 \<le> n \<and> n \<le> 57) \<or> (65 \<le> n \<and> n \<le> 90) \<or> n = 95 \<or> (97 \<le> n \<and> n \<le> 122))"

datatype cls = Space | Word | Digit | OneOf string

fun in_cls :: "cls \<Rightarrow> char \<Rightarrow> bool" where
  "in_cls Space c = is_space c"
| "in_cls Word c = is_word c"
| "in_cls Digit c = is_digit c"
| "in_cls (OneOf cs) c = (c \<in> set cs)"

subsection \<open>The fragment of \<^verbatim>\<open>re\<close> the script uses\<close>

text \<open>
  Literals, character classes, the greedy quantifiers \<^verbatim>\<open>+\<close> and \<^verbatim>\<open>*\<close> on a class,
  the greedy \<^verbatim>\<open>?\<close>, alternation, concatenation, numbered groups, \<^verbatim>\<open>^\<close> and
  \<^verbatim>\<open>$\<close> (without \<^verbatim>\<open>re.MULTILINE\<close>).
\<close>

datatype regex =
    Eps
  | Lit string
  | Cls cls
  | Plus cls
  | Star cls
  | Opt regex
  | Alt regex regex
  | Seq regex regex
  | Group nat regex
  | Bol
  | Eol

type_synonym caps = "nat \<rightharpoonup> nat \<times> nat"

definition run :: "cls \<Rightarrow> string \<Rightarrow> nat \<Rightarrow> nat" where
  \<comment> \<open>how many characters of the class stand at position \<open>i\<close> and after\<close>
  "run c s i = length (takeWhile (in_cls c) (drop i s))"

text \<open>
  The backtracking matcher: at position \<open>i\<close> of the subject \<open>s\<close>, with the groups
  \<open>c\<close> set so far, the list of the ways the expression matches there (the position
  after the match, the groups then), in the order the engine tries them. A greedy
  quantifier gives its longest match first.
\<close>

fun rmatch :: "regex \<Rightarrow> string \<Rightarrow> nat \<Rightarrow> caps \<Rightarrow> (nat \<times> caps) list" where
  "rmatch Eps s i c = [(i, c)]"
| "rmatch (Lit l) s i c =
     (if take (length l) (drop i s) = l then [(i + length l, c)] else [])"
| "rmatch (Cls k) s i c =
     (if i < length s \<and> in_cls k (s ! i) then [(Suc i, c)] else [])"
| "rmatch (Plus k) s i c = map (\<lambda>n. (i + n, c)) (rev [1..<Suc (run k s i)])"
| "rmatch (Star k) s i c = map (\<lambda>n. (i + n, c)) (rev [0..<Suc (run k s i)])"
| "rmatch (Opt r) s i c = rmatch r s i c @ [(i, c)]"
| "rmatch (Alt r1 r2) s i c = rmatch r1 s i c @ rmatch r2 s i c"
| "rmatch (Seq r1 r2) s i c =
     concat (map (\<lambda>(j, c'). rmatch r2 s j c') (rmatch r1 s i c))"
| "rmatch (Group n r) s i c =
     map (\<lambda>(j, c'). (j, c'(n \<mapsto> (i, j)))) (rmatch r s i c)"
| "rmatch Bol s i c = (if i = 0 then [(i, c)] else [])"
| "rmatch Eol s i c =
     (if i = length s \<or> (Suc i = length s \<and> s ! i = CHR 0x0A) then [(i, c)] else [])"

definition cat :: "regex list \<Rightarrow> regex" where
  "cat rs = foldr Seq rs Eps"

datatype pymatch = Match string nat nat caps

definition slice :: "string \<Rightarrow> nat \<Rightarrow> nat \<Rightarrow> string" where
  "slice s a b = take (b - a) (drop a s)"

fun group :: "pymatch \<Rightarrow> nat \<Rightarrow> string option" where
  \<comment> \<open>\<^verbatim>\<open>match.group(k)\<close>; \<open>None\<close> is Python's \<^verbatim>\<open>None\<close>, a group that took no part\<close>
  "group (Match s a b c) k =
     (if k = 0 then Some (slice s a b)
      else (case c k of None \<Rightarrow> None | Some (x, y) \<Rightarrow> Some (slice s x y)))"

definition matches_at :: "regex \<Rightarrow> string \<Rightarrow> nat \<Rightarrow> pymatch list" where
  "matches_at r s i = map (\<lambda>(j, c). Match s i j c) (rmatch r s i Map.empty)"

definition search :: "regex \<Rightarrow> string \<Rightarrow> pymatch option" where
  \<comment> \<open>\<^verbatim>\<open>re.search\<close>: the first way to match at the leftmost position that has one\<close>
  "search r s =
     (case concat (map (matches_at r s) [0..<Suc (length s)]) of
        [] \<Rightarrow> None
      | m # _ \<Rightarrow> Some m)"

subsection \<open>The three patterns\<close>

definition vk_re :: regex where
  \<comment> \<open>\<^verbatim>\<open>'^\s+VK_FORMAT_(\w+) = (\d+),?$'\<close>\<close>
  "vk_re = cat [Bol, Plus Space, Lit ''VK_FORMAT_'', Group 1 (Plus Word), Lit '' = '',
     Group 2 (Plus Digit), Opt (Lit '',''), Eol]"

definition format_re :: regex where
  \<comment> \<open>\<^verbatim>\<open>'^\s+(Compressed)?(\w+) = VK_FORMAT_(\w+),?$'\<close>\<close>
  "format_re = cat [Bol, Plus Space, Opt (Group 1 (Lit ''Compressed'')), Group 2 (Plus Word),
     Lit '' = VK_FORMAT_'', Group 3 (Plus Word), Opt (Lit '',''), Eol]"

definition suffix_re :: regex where
  \<comment> \<open>\<^verbatim>\<open>'\w+_([U|S](NORM|INT|FLOAT|RGB))\w*'\<close>\<close>
  "suffix_re = cat [Plus Word, Lit ''_'',
     Group 1 (cat [Cls (OneOf ''U|S''),
       Group 2 (Alt (Lit ''NORM'') (Alt (Lit ''INT'') (Alt (Lit ''FLOAT'') (Lit ''RGB''))))]),
     Star Word]"

subsection \<open>Files and paths\<close>

datatype error = AssertionError | FileNotFoundError

record world =
  files :: "string \<rightharpoonup> string"
  stdout :: string

definition os_path_join :: "string \<Rightarrow> string \<Rightarrow> string" where
  \<comment> \<open>\<^verbatim>\<open>os.path.join(a, b)\<close> of \<^verbatim>\<open>posixpath\<close>\<close>
  "os_path_join a b =
     (if take 1 b = ''/'' then b
      else if a = [] \<or> last a = CHR ''/'' then a @ b
      else a @ ''/'' @ b)"

definition open_read :: "world \<Rightarrow> string \<Rightarrow> error + string" where
  \<comment> \<open>\<^verbatim>\<open>open(path, encoding='utf-8')\<close> and reading the whole text\<close>
  "open_read w path = (case files w path of None \<Rightarrow> Inl FileNotFoundError | Some text \<Rightarrow> Inr text)"

fun readlines_from :: "string \<Rightarrow> string \<Rightarrow> string list" where
  "readlines_from cur [] = (if cur = [] then [] else [cur])"
| "readlines_from cur (c # cs) =
     (if c = CHR 0x0A then (cur @ [c]) # readlines_from [] cs
      else readlines_from (cur @ [c]) cs)"

definition readlines :: "string \<Rightarrow> string list" where
  \<comment> \<open>\<^verbatim>\<open>f.readlines()\<close>: every line keeps its newline; the text is the one the file
      object hands out, line ends already translated to \<^verbatim>\<open>\n\<close>\<close>
  "readlines text = readlines_from [] text"

definition write_file :: "string \<Rightarrow> string \<Rightarrow> world \<Rightarrow> world" where
  \<comment> \<open>\<^verbatim>\<open>open(path, 'w', encoding='utf-8')\<close> and the writes up to the end of the
      \<^verbatim>\<open>with\<close> block: the file holds what was written, whatever it held before\<close>
  "write_file path text w = w\<lparr>files := (files w)(path \<mapsto> text)\<rparr>"

definition print :: "string \<Rightarrow> world \<Rightarrow> world" where
  "print text w = w\<lparr>stdout := stdout w @ text @ [CHR 0x0A]\<rparr>"

subsection \<open>The Enum Extractor: \<^verbatim>\<open>vulkan_formats\<close>\<close>

text \<open>
  Both loops read groups with \<^term>\<open>the\<close>. A group read this way took part in every match
  of its pattern (lemmas \<open>vk_re_groups\<close>, \<open>format_re_groups\<close> and \<open>suffix_some\<close> below), so
  Python's \<^verbatim>\<open>None\<close> never stands there; only \<^verbatim>\<open>match.group(1)\<close> of the mapping pattern,
  the optional \<^verbatim>\<open>Compressed\<close>, can be \<^verbatim>\<open>None\<close>, and the script tests it.
\<close>

fun vulkan_formats_loop ::
  "(string \<rightharpoonup> string) \<Rightarrow> string list \<Rightarrow> error + (string \<rightharpoonup> string)" where
  "vulkan_formats_loop vulkan_formats [] = Inr vulkan_formats"
| "vulkan_formats_loop vulkan_formats (line # lines) =
     (case search vk_re line of
        None \<Rightarrow> vulkan_formats_loop vulkan_formats lines
      | Some m \<Rightarrow>
          if the (group m 1) \<in> dom vulkan_formats then Inl AssertionError
          else vulkan_formats_loop (vulkan_formats(the (group m 1) \<mapsto> the (group m 2))) lines)"

subsection \<open>The Mapping Builder: \<^verbatim>\<open>formats\<close>\<close>

record format =
  compressed :: bool
  magnum :: string
  vulkan_name :: string
  vulkan :: string
  suffix :: string

fun formats_loop ::
  "(string \<rightharpoonup> string) \<Rightarrow> format list \<Rightarrow> string list \<Rightarrow> error + format list" where
  "formats_loop vulkan_formats formats [] = Inr formats"
| "formats_loop vulkan_formats formats (line # lines) =
     (case search format_re line of
        None \<Rightarrow> formats_loop vulkan_formats formats lines
      | Some m \<Rightarrow>
          (let magnum_name = the (group m 2); vname = the (group m 3) in
           if vname \<notin> dom vulkan_formats then Inl AssertionError
           else (case search suffix_re vname of
                   None \<Rightarrow> Inl AssertionError
                 | Some sfx \<Rightarrow>
                     if group sfx 1 = Some ''URGB'' then Inl AssertionError
                     else formats_loop vulkan_formats
                       (formats @ [\<lparr>compressed = (group m 1 \<noteq> None), magnum = magnum_name,
                          vulkan_name = vname, vulkan = the (vulkan_formats vname),
                          suffix = the (group sfx 1)\<rparr>])
                       lines)))"

subsection \<open>Partition and the emitter\<close>

definition partition_py :: "('a \<Rightarrow> bool) \<Rightarrow> 'a list \<Rightarrow> 'a list \<times> 'a list" where
  \<comment> \<open>the itertools recipe: \<^verbatim>\<open>filterfalse(pred, t1), filter(pred, t2)\<close>\<close>
  "partition_py pred iterable = (filter (\<lambda>x. \<not> pred x) iterable, filter pred iterable)"

definition startswith :: "string \<Rightarrow> string \<Rightarrow> bool" where
  "startswith s p = (take (length p) s = p)"

definition header_lines :: "string list" where
  \<open>header_lines =
    [''/*'',
     ''    This file is part of Magnum.'',
     '''',
     ''    Copyright '' @ [CHR 0xC2, CHR 0xA9] @ '' 2010, 2011, 2012, 2013, 2014, 2015, 2016, 2017, 2018, 2019,'',
     ''                2020, 2021, 2022, 2023, 2024, 2025'',
     ''              Vladim'' @ [CHR 0xC3, CHR 0xAD] @ ''r Vondru'' @ [CHR 0xC5, CHR 0xA1] @ '' <mosra@centrum.cz>'',
     ''    Copyright '' @ [CHR 0xC2, CHR 0xA9] @ '' 2021 Pablo Escobar <mail@rvrs.in>'',
     '''',
     ''    Permission is hereby granted, free of charge, to any person obtaining a'',
     ''    copy of this software and associated documentation files (the "Software"),'',
     ''    to deal in the Software without restriction, including without limitation'',
     ''    the rights to use, copy, modify, merge, publish, distribute, sublicense,'',
     ''    and/or sell copies of the Software, and to permit persons to whom the'',
     ''    Software is furnished to do so, subject to the following conditions:'',
     '''',
     ''    The above copyright notice and this permission notice shall be included'',
     ''    in all copies or substantial portions of the Software.'',
     '''',
     ''    THE SOFTWARE IS PROVIDED "AS IS", WITHOUT WARRANTY OF ANY KIND, EXPRESS OR'',
     ''    IMPLIED, INCLUDING BUT NOT LIMITED TO THE WARRANTIES OF MERCHANTABILITY,'',
     ''    FITNESS FOR A PARTICULAR PURPOSE AND NONINFRINGEMENT. IN NO EVENT SHALL'',
     ''    THE AUTHORS OR COPYRIGHT HOLDERS BE LIABLE FOR ANY CLAIM, DAMAGES OR OTHER'',
     ''    LIABILITY, WHETHER IN AN ACTION OF CONTRACT, TORT OR OTHERWISE, ARISING'',
     ''    FROM, OUT OF OR IN CONNECTION WITH THE SOFTWARE OR THE USE OR OTHER'',
     ''    DEALINGS IN THE SOFTWARE.'',
     ''*/'',
     '''',
     ''/* Autogenerated from formatMapping.py! Do not edit! */'',
     '''']\<close>

definition header :: string where
  \<comment> \<open>the triple-quoted literal, line by line, in UTF-8\<close>
  "header = concat (map (\<lambda>l. l @ [CHR 0x0A]) header_lines)"

definition format_line :: "format \<Rightarrow> string" where
  \<comment> \<open>\<^verbatim>\<open>'_c({}, {}, {}) /* VK_FORMAT_{} */\n'.format(vulkan, magnum, suffix, vulkan_name)\<close>\<close>
  "format_line f =
     ''_c('' @ vulkan f @ '', '' @ magnum f @ '', '' @ suffix f @ '') /* VK_FORMAT_''
       @ vulkan_name f @ '' */'' @ [CHR 0x0A]"

definition table :: "string \<Rightarrow> format list \<Rightarrow> string" where
  \<comment> \<open>what one \<^verbatim>\<open>with open(..., 'w')\<close> block writes\<close>
  "table columns fs =
     header @ columns @ [CHR 0x0A] @ ''#ifdef _c'' @ [CHR 0x0A]
       @ concat (map format_line fs) @ ''#endif'' @ [CHR 0x0A]"

subsection \<open>The script\<close>

definition vulkan_header :: "string \<Rightarrow> string" where
  "vulkan_header magnum_dir = os_path_join magnum_dir ''src/MagnumExternal/Vulkan/flextVk.h''"

definition format_header :: "string \<Rightarrow> string" where
  "format_header magnum_dir = os_path_join magnum_dir ''src/Magnum/Vk/PixelFormat.h''"

definition emit :: "format list \<Rightarrow> world \<Rightarrow> world" where
  \<comment> \<open>from the count check to the end of the script\<close>
  "emit all_formats w =
     (let w1 = (if length all_formats \<noteq> 135 then print ''Unexpected number of formats'' w else w);
          (formats, compressed_formats) = partition_py compressed all_formats;
          compressed_formats = filter (\<lambda>f. \<not> startswith (magnum f) ''Pvrtc2'') compressed_formats;
          w2 = write_file ''formatMapping.hpp''
                 (table ''/* VkFormat, PixelFormat, Implementation::VkFormatSuffix */'' formats) w1
      in write_file ''compressedFormatMapping.hpp''
           (table ''/* VkFormat, CompressedPixelFormat, Implementation::VkFormatSuffix */''
              compressed_formats) w2)"

definition build :: "string \<Rightarrow> world \<Rightarrow> error + format list" where
  \<comment> \<open>the two scans, in the script's order\<close>
  "build magnum_dir w =
     (case open_read w (vulkan_header magnum_dir) of
        Inl e \<Rightarrow> Inl e
      | Inr text1 \<Rightarrow>
          (case vulkan_formats_loop Map.empty (readlines text1) of
             Inl e \<Rightarrow> Inl e
           | Inr vulkan_formats \<Rightarrow>
               (case open_read w (format_header magnum_dir) of
                  Inl e \<Rightarrow> Inl e
                | Inr text2 \<Rightarrow> formats_loop vulkan_formats [] (readlines text2))))"

definition script :: "string \<Rightarrow> world \<Rightarrow> world \<times> error option" where
  \<comment> \<open>the world after the run, and the exception that ended it if one did\<close>
  "script magnum_dir w =
     (case build magnum_dir w of
        Inl e \<Rightarrow> (w, Some e)
      | Inr all_formats \<Rightarrow> (emit all_formats w, None))"

definition exit_status :: "error option \<Rightarrow> nat" where
  \<comment> \<open>an uncaught exception ends the interpreter with status 1\<close>
  "exit_status r = (case r of None \<Rightarrow> 0 | Some e \<Rightarrow> 1)"

subsection \<open>Auxiliary notions for the proofs\<close>

text \<open>
  \<open>suffix_tail\<close> is \<open>suffix_re\<close> after its leading \<^verbatim>\<open>\w+\<close>; \<open>token_at s j\<close> is the
  classification token that stands right after an underscore at position \<open>j\<close> of \<open>s\<close>,
  if there is one.
\<close>

definition suffix_tail :: regex where
  "suffix_tail = cat [Lit ''_'',
     Group 1 (cat [Cls (OneOf ''U|S''),
       Group 2 (Alt (Lit ''NORM'') (Alt (Lit ''INT'') (Alt (Lit ''FLOAT'') (Lit ''RGB''))))]),
     Star Word]"

definition token_at :: "string \<Rightarrow> nat \<Rightarrow> string option" where
  "token_at s j =
     (if Suc j < length s \<and> s ! j = CHR ''_'' \<and> s ! Suc j \<in> set ''U|S'' then
        (case find (\<lambda>t. take (length t) (drop (Suc (Suc j)) s) = t)
                [''NORM'', ''INT'', ''FLOAT'', ''RGB''] of
           None \<Rightarrow> None
         | Some t \<Rightarrow> Some (s ! Suc j # t))
      else None)"

text \<open>
  \<open>built tbl l f\<close>: the record \<open>f\<close> is what one pass of the second loop appends for the
  line \<open>l\<close>, with the Constant Table \<open>tbl\<close>. \<open>world_of text1 text2\<close> is a world that holds
  the two headers under the source tree \<^verbatim>\<open>magnum\<close> and nothing else; the examples run in it.
\<close>

definition built :: "(string \<rightharpoonup> string) \<Rightarrow> string \<Rightarrow> format \<Rightarrow> bool" where
  "built tbl l f =
     (\<exists>m sfx. search format_re l = Some m \<and> search suffix_re (the (group m 3)) = Some sfx
        \<and> the (group m 3) \<in> dom tbl \<and> group sfx 1 \<noteq> Some ''URGB''
        \<and> f = \<lparr>compressed = (group m 1 \<noteq> None), magnum = the (group m 2),
                vulkan_name = the (group m 3), vulkan = the (tbl (the (group m 3))),
                suffix = the (group sfx 1)\<rparr>)"

definition world_of :: "string \<Rightarrow> string \<Rightarrow> world" where
  "world_of text1 text2 =
     \<lparr>files = [vulkan_header ''magnum'' \<mapsto> text1, format_header ''magnum'' \<mapsto> text2],
      stdout = []\<rparr>"

section \<open>Properties of the matcher\<close>

lemma take_run_all:
  "n \<le> length (takeWhile P xs) \<Longrightarrow> list_all P (take n xs) \<and> length (take n xs) = n"
proof (induction xs arbitrary: n)
  case Nil
  then show ?case by simp
next
  case (Cons x xs)
  then show ?case by (cases n) (auto split: if_splits)
qed

lemma in_cls_Word: "in_cls Word = is_word"
  by (rule ext) simp

lemma in_cls_Digit: "in_cls Digit = is_digit"
  by (rule ext) simp

lemma slice_run:
  assumes "a < e" and "e - a \<le> run k s a"
  shows "list_all (in_cls k) (slice s a e)" and "slice s a e \<noteq> []"
proof -
  from take_run_all [of "e - a" "in_cls k" "drop a s"] assms(2)
  have *: "list_all (in_cls k) (slice s a e)" "length (slice s a e) = e - a"
    by (simp_all add: run_def slice_def)
  show "list_all (in_cls k) (slice s a e)" by (rule *)
  from *(2) assms(1) show "slice s a e \<noteq> []" by auto
qed

lemma set_rmatch_Seq:
  "set (rmatch (Seq r1 r2) s i c) = (\<Union>(j, c') \<in> set (rmatch r1 s i c). set (rmatch r2 s j c'))"
  by auto

lemma set_rmatch_Plus: "set (rmatch (Plus k) s i c) = (\<lambda>n. (i + n, c)) ` {1..run k s i}"
  by auto

lemma set_rmatch_Star: "set (rmatch (Star k) s i c) = (\<lambda>n. (i + n, c)) ` {0..run k s i}"
  by auto

lemma search_SomeD:
  assumes "search r s = Some m"
  shows "\<exists>i j c. (j, c) \<in> set (rmatch r s i Map.empty) \<and> m = Match s i j c"
proof -
  from assms obtain ms where "concat (map (matches_at r s) [0..<Suc (length s)]) = m # ms"
    by (auto simp: search_def simp del: upt_Suc split: list.splits)
  then have "m \<in> set (concat (map (matches_at r s) [0..<Suc (length s)]))"
    by (metis list.set_intros(1))
  then show ?thesis unfolding set_concat by (auto simp: matches_at_def simp del: upt_Suc)
qed

lemmas rm_set = set_rmatch_Seq set_rmatch_Plus set_rmatch_Star

lemma vk_re_caps:
  assumes "(j, c) \<in> set (rmatch vk_re l i Map.empty)"
  shows "(case c 1 of None \<Rightarrow> False | Some (a, e) \<Rightarrow> a < e \<and> e - a \<le> run Word l a) \<and>
         (case c 2 of None \<Rightarrow> False | Some (a, e) \<Rightarrow> a < e \<and> e - a \<le> run Digit l a)"
  using assms unfolding vk_re_def cat_def
  by (simp only: foldr.simps o_apply rm_set) (auto split: if_splits)

lemma vk_re_groups:
  assumes "search vk_re l = Some m"
  shows "\<exists>k v. group m 1 = Some k \<and> group m 2 = Some v \<and> k \<noteq> [] \<and> list_all is_word k
           \<and> v \<noteq> [] \<and> list_all is_digit v"
proof -
  from search_SomeD [OF assms] obtain i j c where
    mem: "(j, c) \<in> set (rmatch vk_re l i Map.empty)" and m: "m = Match l i j c" by blast
  from vk_re_caps [OF mem] obtain a e b f where
    c: "c 1 = Some (a, e)" "c 2 = Some (b, f)" and n: "a < e" "e - a \<le> run Word l a"
    and k: "b < f" "f - b \<le> run Digit l b"
    by (auto split: option.splits)
  show ?thesis
    using slice_run [OF n] slice_run [OF k] c
    by (auto simp: m in_cls_Word in_cls_Digit)
qed

lemma suffix_re_tail: "suffix_re = Seq (Plus Word) suffix_tail"
  by (simp add: suffix_re_def suffix_tail_def cat_def)

lemma take1_drop: "(take (Suc 0) (drop j s) = [x]) = (j < length s \<and> s ! j = x)"
proof (cases "j < length s")
  case True
  then have "drop j s = s ! j # drop (Suc j) s" by (simp add: Cons_nth_drop_Suc)
  with True show ?thesis by simp
next
  case False
  then show ?thesis by simp
qed

lemma take_Suc_drop:
  "i < length s \<Longrightarrow> take (Suc n) (drop i s) = s ! i # take n (drop (Suc i) s)"
  by (simp add: Cons_nth_drop_Suc [symmetric])

lemma tail_none: "token_at s j = None \<Longrightarrow> rmatch suffix_tail s j c = []"
  unfolding token_at_def suffix_tail_def cat_def
  by (auto simp: take1_drop split: if_splits option.splits)

lemma tail_some:
  assumes "token_at s j = Some t"
  shows "\<exists>e c' rest. rmatch suffix_tail s j c = (e, c') # rest
           \<and> c' 1 = Some (Suc j, Suc j + length t) \<and> slice s (Suc j) (Suc j + length t) = t"
  using assms unfolding token_at_def suffix_tail_def cat_def slice_def
  by (auto simp: take1_drop take_Suc_drop split: if_splits option.splits)

lemma concat_map_first:
  "(\<And>a. a \<in> set as \<Longrightarrow> f a = []) \<Longrightarrow> concat (map f (as @ x # bs)) = f x @ concat (map f bs)"
  by (induction as) auto

lemma concat_map_empty:
  "(\<And>a. a \<in> set as \<Longrightarrow> f a = []) \<Longrightarrow> concat (map f as) = []"
  by (induction as) auto

lemma run_all: "list_all (in_cls k) s \<Longrightarrow> run k s 0 = length s"
  by (simp add: run_def list_all_iff takeWhile_eq_all_conv [THEN iffD2])

lemma token_at_bound: "token_at s k = Some t \<Longrightarrow> Suc k < length s"
  by (auto simp: token_at_def split: if_splits)

lemma rmatch_suffix_re:
  "rmatch suffix_re s i c =
     concat (map (\<lambda>n. rmatch suffix_tail s (i + n) c) (rev [1..<Suc (run Word s i)]))"
  by (simp add: suffix_re_tail o_def del: upt_Suc)

lemma suffix_rightmost:
  assumes w: "list_all is_word s" and k: "1 \<le> k" and tk: "token_at s k = Some t"
    and later: "\<And>k'. k < k' \<Longrightarrow> token_at s k' = None"
  shows "\<exists>m. search suffix_re s = Some m \<and> group m 1 = Some t"
proof -
  let ?L = "length s"
  have kL: "k < ?L" using token_at_bound [OF tk] by simp
  have run: "run Word s 0 = ?L" using w by (simp add: run_all in_cls_Word)
  obtain e c' rest where h: "rmatch suffix_tail s k Map.empty = (e, c') # rest"
    "c' 1 = Some (Suc k, Suc k + length t)" "slice s (Suc k) (Suc k + length t) = t"
    using tail_some [OF tk] by blast
  have "[1..<k + (Suc ?L - k)] = [1..<k] @ [k..<k + (Suc ?L - k)]"
    using k by (rule upt_add_eq_append)
  moreover have "k + (Suc ?L - k) = Suc ?L" using kL by simp
  moreover have "[k..<Suc ?L] = k # [Suc k..<Suc ?L]" using kL by (simp add: upt_conv_Cons del: upt_Suc)
  ultimately have "[1..<Suc ?L] = [1..<k] @ k # [Suc k..<Suc ?L]" by simp
  then have split: "rev [1..<Suc ?L] = rev [Suc k..<Suc ?L] @ k # rev [1..<k]"
    by simp
  have "rmatch suffix_re s 0 Map.empty =
          rmatch suffix_tail s k Map.empty
            @ concat (map (\<lambda>n. rmatch suffix_tail s n Map.empty) (rev [1..<k]))"
    unfolding rmatch_suffix_re run split
    by (simp only: add_0) (rule concat_map_first, auto intro!: tail_none later)
  then obtain ms where "matches_at suffix_re s 0 = Match s 0 e c' # ms"
    by (simp add: matches_at_def h)
  moreover have "[0..<Suc ?L] = 0 # [1..<Suc ?L]"
    by (simp add: upt_conv_Cons del: upt_Suc)
  ultimately have "search suffix_re s = Some (Match s 0 e c')"
    by (simp add: search_def del: upt_Suc)
  then show ?thesis using h by simp
qed

lemma suffix_none:
  assumes "\<And>k. 1 \<le> k \<Longrightarrow> token_at s k = None"
  shows "search suffix_re s = None"
proof -
  have "rmatch suffix_re s i Map.empty = []" for i
    unfolding rmatch_suffix_re
    by (rule concat_map_empty) (auto intro!: tail_none assms)
  then have "concat (map (matches_at suffix_re s) [0..<Suc (length s)]) = []"
    by (simp add: matches_at_def del: upt_Suc)
  then show ?thesis by (simp only: search_def list.case)
qed

lemma take_Suc_eq_Cons: "(take (Suc n) xs = c # r) = (\<exists>ys. xs = c # ys \<and> take n ys = r)"
  by (cases xs) auto

lemma tail_all:
  assumes "token_at s k = Some t" and "(j, c') \<in> set (rmatch suffix_tail s k c)"
  shows "c' 1 = Some (Suc k, Suc k + length t)"
  using assms unfolding token_at_def suffix_tail_def cat_def
  by (auto simp: take1_drop take_Suc_eq_Cons split: if_splits simp del: upt_Suc)

lemma tail_mem:
  assumes "(j, c') \<in> set (rmatch suffix_tail s k c)"
  shows "\<exists>t. token_at s k = Some t \<and> c' 1 = Some (Suc k, Suc k + length t)"
proof (cases "token_at s k")
  case None
  from tail_none [OF None, of c] assms show ?thesis by simp
next
  case (Some t)
  with tail_all [OF Some assms] show ?thesis by simp
qed

lemma token_at_slice:
  "token_at s k = Some t \<Longrightarrow> slice s (Suc k) (Suc k + length t) = t"
  using tail_some [of s k t Map.empty] by blast

lemma suffix_some:
  assumes "search suffix_re s = Some m"
  shows "\<exists>k t. 1 \<le> k \<and> token_at s k = Some t \<and> group m 1 = Some t"
proof -
  from search_SomeD [OF assms] obtain i j c where
    mem: "(j, c) \<in> set (rmatch suffix_re s i Map.empty)" and m: "m = Match s i j c" by blast
  from mem obtain n where n: "1 \<le> n" "(j, c) \<in> set (rmatch suffix_tail s (i + n) Map.empty)"
    unfolding rmatch_suffix_re by (auto simp del: upt_Suc)
  from tail_mem [OF n(2)] obtain t where
    t: "token_at s (i + n) = Some t" "c 1 = Some (Suc (i + n), Suc (i + n) + length t)" by blast
  have "group m 1 = Some t" using t(2) token_at_slice [OF t(1)] by (simp add: m)
  with n(1) t(1) show ?thesis by (intro exI [of _ "i + n"] exI [of _ t]) simp
qed

lemma token_at_decomp:
  assumes "m \<in> set ''U|S''" and "k \<in> set [''NORM'', ''INT'', ''FLOAT'', ''RGB'']"
  shows "token_at (p @ ''_'' @ [m] @ k @ q) (length p) = Some (m # k)"
proof -
  have d: "drop (Suc (Suc (length p))) (p @ CHR ''_'' # m # k @ q) = k @ q"
    by (simp add: drop_Suc)
  from assms(2) have "find (\<lambda>t. take (length t) (k @ q) = t) [''NORM'', ''INT'', ''FLOAT'', ''RGB'']
      = Some k" by auto
  with assms(1) show ?thesis
    unfolding token_at_def by (simp only: append_Cons append_Nil d) (simp add: nth_append)
qed

lemma find_SomeD: "find P xs = Some x \<Longrightarrow> x \<in> set xs \<and> P x"
  by (induction xs) (auto split: if_splits)

lemma token_at_SomeD:
  assumes "token_at s j = Some t"
  shows "\<exists>m k q. s = take j s @ ''_'' @ [m] @ k @ q \<and> m \<in> set ''U|S''
           \<and> k \<in> set [''NORM'', ''INT'', ''FLOAT'', ''RGB''] \<and> t = m # k \<and> j < length s"
proof -
  from assms have j: "Suc j < length s" and u: "s ! j = CHR ''_''" and m: "s ! Suc j \<in> set ''U|S''"
    by (auto simp: token_at_def split: if_splits)
  from assms j u m obtain k where
    k: "find (\<lambda>t. take (length t) (drop (Suc (Suc j)) s) = t) [''NORM'', ''INT'', ''FLOAT'', ''RGB'']
          = Some k" and t: "t = s ! Suc j # k"
    unfolding token_at_def by (auto split: option.splits if_splits)
  from find_SomeD [OF k] have kin: "k \<in> set [''NORM'', ''INT'', ''FLOAT'', ''RGB'']"
    and kt: "take (length k) (drop (Suc (Suc j)) s) = k"
    by blast+
  define q where "q = drop (length k) (drop (Suc (Suc j)) s)"
  have "drop j s = s ! j # s ! Suc j # drop (Suc (Suc j)) s"
    using j by (simp add: Cons_nth_drop_Suc)
  moreover have "drop (Suc (Suc j)) s = k @ q"
    unfolding q_def using kt append_take_drop_id [of "length k" "drop (Suc (Suc j)) s"] by simp
  ultimately have "drop j s = ''_'' @ [s ! Suc j] @ k @ q"
    using u by simp
  then have eq: "s = take j s @ ''_'' @ [s ! Suc j] @ k @ q"
    using append_take_drop_id [of j s] by metis
  show ?thesis
  proof (intro exI conjI)
    show "s = take j s @ ''_'' @ [s ! Suc j] @ k @ q" by (rule eq)
    show "s ! Suc j \<in> set ''U|S''" by (rule m)
    show "k \<in> set [''NORM'', ''INT'', ''FLOAT'', ''RGB'']" by (rule kin)
    show "t = s ! Suc j # k" by (rule t)
    show "j < length s" using j by simp
  qed
qed


lemma mem_Eps: "((j, c') \<in> set (rmatch Eps s i c)) = (j = i \<and> c' = c)"
  by auto

lemma mem_Bol: "((j, c') \<in> set (rmatch Bol s i c)) = (i = 0 \<and> j = i \<and> c' = c)"
  by auto

lemma mem_Eol:
  "((j, c') \<in> set (rmatch Eol s i c)) =
     ((i = length s \<or> (Suc i = length s \<and> s ! i = CHR 0x0A)) \<and> j = i \<and> c' = c)"
  by auto

lemma mem_Lit:
  "((j, c') \<in> set (rmatch (Lit a) s i c)) =
     (take (length a) (drop i s) = a \<and> j = i + length a \<and> c' = c)"
  by auto

lemma mem_Plus:
  "((j, c') \<in> set (rmatch (Plus k) s i c)) = (i < j \<and> j - i \<le> run k s i \<and> c' = c)"
proof -
  have "((j, c') \<in> set (rmatch (Plus k) s i c)) = (\<exists>n. 1 \<le> n \<and> n \<le> run k s i \<and> j = i + n \<and> c' = c)"
    by (auto simp del: upt_Suc)
  also have "\<dots> = (i < j \<and> j - i \<le> run k s i \<and> c' = c)"
  proof
    assume "\<exists>n. 1 \<le> n \<and> n \<le> run k s i \<and> j = i + n \<and> c' = c"
    then show "i < j \<and> j - i \<le> run k s i \<and> c' = c" by auto
  next
    assume "i < j \<and> j - i \<le> run k s i \<and> c' = c"
    then show "\<exists>n. 1 \<le> n \<and> n \<le> run k s i \<and> j = i + n \<and> c' = c"
      by (intro exI [of _ "j - i"]) auto
  qed
  finally show ?thesis .
qed

lemma mem_Opt:
  "((j, c') \<in> set (rmatch (Opt r) s i c)) = ((j, c') \<in> set (rmatch r s i c) \<or> (j = i \<and> c' = c))"
  by auto

lemma mem_Group:
  "((j, c') \<in> set (rmatch (Group n r) s i c)) =
     (\<exists>c0. (j, c0) \<in> set (rmatch r s i c) \<and> c' = c0(n \<mapsto> (i, j)))"
  by auto

lemma mem_Seq:
  "((j, c') \<in> set (rmatch (Seq r1 r2) s i c)) =
     (\<exists>j1 c1. (j1, c1) \<in> set (rmatch r1 s i c) \<and> (j, c') \<in> set (rmatch r2 s j1 c1))"
  by auto

lemmas mem_rmatch = mem_Eps mem_Bol mem_Eol mem_Lit mem_Plus mem_Opt mem_Group mem_Seq

lemma format_shape_caps:
  assumes "(j, c) \<in> set (rmatch (cat [Bol, Plus Space, Opt (Group 1 (Lit a)), Group 2 (Plus Word),
     Lit b, Group 3 (Plus Word), Opt (Lit d), Eol]) l i Map.empty)"
  shows "\<exists>a2 e2 a3 e3. c 2 = Some (a2, e2) \<and> a2 < e2 \<and> e2 - a2 \<le> run Word l a2
           \<and> c 3 = Some (a3, e3) \<and> a3 < e3 \<and> e3 - a3 \<le> run Word l a3"
  using assms unfolding cat_def
  apply (simp only: foldr.simps o_apply mem_rmatch)
  apply (elim exE conjE)
  apply simp
  apply (elim disjE conjE; simp)
  done

lemma vk_shape_caps:
  assumes "(j, c) \<in> set (rmatch (cat [Bol, Plus Space, Lit a, Group 1 (Plus Word), Lit b,
     Group 2 (Plus Digit), Opt (Lit d), Eol]) l i Map.empty)"
  shows "\<exists>a1 e1 a2 e2. c 1 = Some (a1, e1) \<and> a1 < e1 \<and> e1 - a1 \<le> run Word l a1
           \<and> c 2 = Some (a2, e2) \<and> a2 < e2 \<and> e2 - a2 \<le> run Digit l a2"
  using assms unfolding cat_def
  apply (simp only: foldr.simps o_apply mem_rmatch)
  apply (elim exE conjE)
  apply simp
  apply (elim disjE conjE; simp)
  done

lemma format_re_groups:
  assumes "search format_re l = Some m"
  shows "\<exists>a b. group m 2 = Some a \<and> group m 3 = Some b \<and> a \<noteq> [] \<and> list_all is_word a
           \<and> b \<noteq> [] \<and> list_all is_word b"
proof -
  from search_SomeD [OF assms] obtain i j c where
    mem: "(j, c) \<in> set (rmatch format_re l i Map.empty)" and m: "m = Match l i j c" by blast
  from format_shape_caps [OF mem [unfolded format_re_def]] obtain a e b f where
    c: "c 2 = Some (a, e)" "c 3 = Some (b, f)" and n: "a < e" "e - a \<le> run Word l a"
    and k: "b < f" "f - b \<le> run Word l b"
    by blast
  show ?thesis
    using slice_run [OF n] slice_run [OF k] c
    by (auto simp: m in_cls_Word)
qed

subsection \<open>The first loop\<close>

lemma vulkan_loop_error: "vulkan_formats_loop tbl lines = Inl e \<Longrightarrow> e = AssertionError"
  by (induction lines arbitrary: tbl) (auto split: option.splits if_splits)

lemma vulkan_loop_append:
  "vulkan_formats_loop tbl (xs @ ys) =
     (case vulkan_formats_loop tbl xs of Inl e \<Rightarrow> Inl e | Inr t \<Rightarrow> vulkan_formats_loop t ys)"
  by (induction xs arbitrary: tbl) (auto split: option.splits)

lemma vulkan_loop_defined:
  assumes "l \<in> set lines" and "search vk_re l = Some m" and "the (group m 1) \<in> dom tbl"
  shows "vulkan_formats_loop tbl lines = Inl AssertionError"
  using assms
proof (induction lines arbitrary: tbl)
  case Nil
  then show ?case by simp
next
  case (Cons x xs)
  show ?case
  proof (cases "search vk_re x")
    case None
    with Cons show ?thesis by auto
  next
    case (Some mx)
    show ?thesis
    proof (cases "the (group mx 1) \<in> dom tbl")
      case True
      with Some show ?thesis by simp
    next
      case False
      with Some Cons.prems have lx: "l \<in> set xs" by auto
      have "the (group m 1) \<in> dom (tbl(the (group mx 1) \<mapsto> the (group mx 2)))"
        using Cons.prems(3) by simp
      then have "vulkan_formats_loop (tbl(the (group mx 1) \<mapsto> the (group mx 2))) xs
          = Inl AssertionError" by (rule Cons.IH [OF lx Cons.prems(2)])
      with Some False show ?thesis by (simp del: fun_upd_apply)
    qed
  qed
qed

lemma vulkan_loop_duplicate:
  assumes "lines = pre @ l1 # mid @ l2 # post"
    and "search vk_re l1 = Some m1" and "search vk_re l2 = Some m2"
    and "group m1 1 = group m2 1"
  shows "vulkan_formats_loop tbl lines = Inl AssertionError"
proof (cases "vulkan_formats_loop tbl pre")
  case (Inl e)
  with vulkan_loop_error [OF Inl] show ?thesis
    by (simp add: assms(1) vulkan_loop_append)
next
  case (Inr t)
  have rest: "vulkan_formats_loop (t(the (group m1 1) \<mapsto> the (group m1 2))) (mid @ l2 # post)
      = Inl AssertionError"
  proof (rule vulkan_loop_defined [of l2 _ m2])
    show "l2 \<in> set (mid @ l2 # post)" by simp
    show "search vk_re l2 = Some m2" by (rule assms(3))
    show "the (group m2 1) \<in> dom (t(the (group m1 1) \<mapsto> the (group m1 2)))"
      using assms(4) by simp
  qed
  show ?thesis
    using Inr rest by (simp add: assms(1,2) vulkan_loop_append)
qed

lemma vulkan_loop_Inr:
  assumes "vulkan_formats_loop tbl lines = Inr tbl'" and "tbl' name = Some v"
  shows "tbl name = Some v \<or>
         (\<exists>l \<in> set lines. \<exists>m. search vk_re l = Some m \<and> group m 1 = Some name \<and> group m 2 = Some v)"
  using assms
proof (induction lines arbitrary: tbl)
  case Nil
  then show ?case by simp
next
  case (Cons x xs)
  show ?case
  proof (cases "search vk_re x")
    case None
    with Cons.prems have "vulkan_formats_loop tbl xs = Inr tbl'" by simp
    from Cons.IH [OF this Cons.prems(2)] show ?thesis by auto
  next
    case (Some mx)
    from vk_re_groups [OF Some] obtain k d where
      g: "group mx 1 = Some k" "group mx 2 = Some d" by blast
    from Cons.prems Some g have nd: "k \<notin> dom tbl"
      and rec: "vulkan_formats_loop (tbl(k \<mapsto> d)) xs = Inr tbl'"
      by (auto split: if_splits)
    from Cons.IH [OF rec Cons.prems(2)] show ?thesis
    proof
      assume "(tbl(k \<mapsto> d)) name = Some v"
      then show ?thesis using Some g by (auto split: if_splits)
    next
      assume "\<exists>l \<in> set xs. \<exists>m. search vk_re l = Some m \<and> group m 1 = Some name \<and> group m 2 = Some v"
      then show ?thesis by auto
    qed
  qed
qed

subsection \<open>The second loop\<close>

lemma formats_loop_error: "formats_loop tbl fs lines = Inl e \<Longrightarrow> e = AssertionError"
  by (induction lines arbitrary: fs) (auto simp: Let_def split: option.splits if_splits)

lemma formats_loop_append:
  "formats_loop tbl fs (xs @ ys) =
     (case formats_loop tbl fs xs of Inl e \<Rightarrow> Inl e | Inr fs' \<Rightarrow> formats_loop tbl fs' ys)"
  by (induction xs arbitrary: fs) (auto simp: Let_def split: option.splits)

lemma formats_loop_fatal:
  assumes "l \<in> set lines" and "\<And>fs0. formats_loop tbl fs0 [l] = Inl AssertionError"
  shows "formats_loop tbl fs lines = Inl AssertionError"
proof -
  from assms(1) obtain pre post where "lines = pre @ l # post"
    by (auto simp: in_set_conv_decomp)
  then have lines: "lines = pre @ [l] @ post" by simp
  show ?thesis
  proof (cases "formats_loop tbl fs pre")
    case (Inl e)
    with formats_loop_error [OF Inl] show ?thesis
      unfolding lines by (simp only: formats_loop_append sum.case)
  next
    case (Inr fs')
    then show ?thesis
      unfolding lines by (simp only: formats_loop_append sum.case assms(2))
  qed
qed

lemma formats_loop_built:
  assumes "formats_loop tbl fs0 lines = Inr fs"
  shows "\<exists>new. fs = fs0 @ new \<and>
           list_all2 (built tbl) (filter (\<lambda>l. search format_re l \<noteq> None) lines) new"
  using assms
proof (induction lines arbitrary: fs0)
  case Nil
  then show ?case by simp
next
  case (Cons x xs)
  show ?case
  proof (cases "search format_re x")
    case None
    with Cons show ?thesis by simp
  next
    case (Some m)
    from Cons.prems Some obtain sfx where
      ok: "the (group m 3) \<in> dom tbl" "search suffix_re (the (group m 3)) = Some sfx"
        "group sfx 1 \<noteq> Some ''URGB''"
      and rec: "formats_loop tbl (fs0 @ [\<lparr>compressed = (group m 1 \<noteq> None), magnum = the (group m 2),
                vulkan_name = the (group m 3), vulkan = the (tbl (the (group m 3))),
                suffix = the (group sfx 1)\<rparr>]) xs = Inr fs"
      by (auto simp: Let_def split: option.splits if_splits)
    from Cons.IH [OF rec] obtain new where
      new: "fs = (fs0 @ [\<lparr>compressed = (group m 1 \<noteq> None), magnum = the (group m 2),
                vulkan_name = the (group m 3), vulkan = the (tbl (the (group m 3))),
                suffix = the (group sfx 1)\<rparr>]) @ new"
        "list_all2 (built tbl) (filter (\<lambda>l. search format_re l \<noteq> None) xs) new" by blast
    have "built tbl x \<lparr>compressed = (group m 1 \<noteq> None), magnum = the (group m 2),
                vulkan_name = the (group m 3), vulkan = the (tbl (the (group m 3))),
                suffix = the (group sfx 1)\<rparr>"
      unfolding built_def using Some ok by blast
    with new Some show ?thesis by simp
  qed
qed

lemma build_error: "build d w = Inl e \<Longrightarrow> e = AssertionError \<or> e = FileNotFoundError"
  by (auto simp: build_def open_read_def split: option.splits sum.splits
      dest: vulkan_loop_error formats_loop_error)

lemma build_InrD:
  assumes "build d w = Inr fs"
  shows "\<exists>text1 text2 tbl. files w (vulkan_header d) = Some text1
           \<and> files w (format_header d) = Some text2
           \<and> vulkan_formats_loop Map.empty (readlines text1) = Inr tbl
           \<and> formats_loop tbl [] (readlines text2) = Inr fs"
  using assms
  by (auto simp: build_def open_read_def split: option.splits sum.splits)

lemma build_first_fails:
  assumes "files w (vulkan_header d) = Some text1"
    and "vulkan_formats_loop Map.empty (readlines text1) = Inl e"
  shows "build d w = Inl AssertionError"
  using assms vulkan_loop_error [OF assms(2)] by (simp add: build_def open_read_def)

lemma build_second:
  assumes "files w (vulkan_header d) = Some text1"
    and "vulkan_formats_loop Map.empty (readlines text1) = Inr tbl"
    and "files w (format_header d) = Some text2"
  shows "build d w = formats_loop tbl [] (readlines text2)"
  using assms by (simp add: build_def open_read_def)

lemma script_fails: "build d w = Inl e \<Longrightarrow> script d w = (w, Some e)"
  by (simp add: script_def)

lemma step_absent:
  assumes "search format_re l = Some m" and "the (group m 3) \<notin> dom tbl"
  shows "formats_loop tbl fs0 [l] = Inl AssertionError"
  using assms by (simp add: Let_def)

lemma step_no_suffix:
  assumes "search format_re l = Some m" and "search suffix_re (the (group m 3)) = None"
  shows "formats_loop tbl fs0 [l] = Inl AssertionError"
  using assms by (simp add: Let_def)

lemma step_urgb:
  assumes "search format_re l = Some m" and "search suffix_re (the (group m 3)) = Some sfx"
    and "group sfx 1 = Some ''URGB''"
  shows "formats_loop tbl fs0 [l] = Inl AssertionError"
  using assms by (simp add: Let_def)

lemma build_second_fatal:
  assumes f1: "files w (vulkan_header d) = Some text1"
    and f2: "files w (format_header d) = Some text2"
    and l: "l \<in> set (readlines text2)"
    and fatal: "\<And>tbl fs0. vulkan_formats_loop Map.empty (readlines text1) = Inr tbl \<Longrightarrow>
                 formats_loop tbl fs0 [l] = Inl AssertionError"
  shows "build d w = Inl AssertionError"
proof (cases "vulkan_formats_loop Map.empty (readlines text1)")
  case (Inl e)
  then show ?thesis by (rule build_first_fails [OF f1])
next
  case (Inr tbl)
  have "formats_loop tbl [] (readlines text2) = Inl AssertionError"
    by (rule formats_loop_fatal [OF l]) (rule fatal [OF Inr])
  then show ?thesis by (simp add: build_second [OF f1 Inr f2])
qed

lemma world_of_files:
  "files (world_of text1 text2) (vulkan_header ''magnum'') = Some text1"
  "files (world_of text1 text2) (format_header ''magnum'') = Some text2"
  by (simp_all add: world_of_def vulkan_header_def format_header_def os_path_join_def)

lemma readlines_one: "readlines (''  VK_FORMAT_R8_UNORM = 9,'' @ [CHR 0x0A]) = [''  VK_FORMAT_R8_UNORM = 9,'' @ [CHR 0x0A]]"
  by (simp add: readlines_def)

lemma search_vk_example:
  "\<exists>m. search vk_re (''  VK_FORMAT_R8_UNORM = 9,'' @ [CHR 0x0A]) = Some m
     \<and> group m 1 = Some ''R8_UNORM'' \<and> group m 2 = Some ''9''"
proof -
  have "case search vk_re (''  VK_FORMAT_R8_UNORM = 9,'' @ [CHR 0x0A]) of None \<Rightarrow> False
        | Some m \<Rightarrow> group m 1 = Some ''R8_UNORM'' \<and> group m 2 = Some ''9''"
    by code_simp
  then show ?thesis by (simp split: option.splits)
qed

lemma readlines_two:
  "readlines ((''  VK_FORMAT_R8_UNORM = 9,'' @ [CHR 0x0A]) @ (''  VK_FORMAT_R8_UNORM = 9,'' @ [CHR 0x0A]))
     = [] @ (''  VK_FORMAT_R8_UNORM = 9,'' @ [CHR 0x0A]) # [] @ (''  VK_FORMAT_R8_UNORM = 9,'' @ [CHR 0x0A]) # []"
  by (simp add: readlines_def)

lemma search_format_absent:
  "\<exists>m. search format_re (''  R8Snorm = VK_FORMAT_R8_SNORM,'' @ [CHR 0x0A]) = Some m
     \<and> group m 3 = Some ''R8_SNORM''"
proof -
  have "case search format_re (''  R8Snorm = VK_FORMAT_R8_SNORM,'' @ [CHR 0x0A]) of None \<Rightarrow> False
        | Some m \<Rightarrow> group m 3 = Some ''R8_SNORM''"
    by code_simp
  then show ?thesis by (simp split: option.splits)
qed

lemma search_format_undefined:
  "\<exists>m. search format_re (''  Undefined = VK_FORMAT_UNDEFINED,'' @ [CHR 0x0A]) = Some m
     \<and> group m 3 = Some ''UNDEFINED''"
proof -
  have "case search format_re (''  Undefined = VK_FORMAT_UNDEFINED,'' @ [CHR 0x0A]) of None \<Rightarrow> False
        | Some m \<Rightarrow> group m 3 = Some ''UNDEFINED''"
    by code_simp
  then show ?thesis by (simp split: option.splits)
qed

lemma search_suffix_undefined: "search suffix_re ''UNDEFINED'' = None"
proof -
  have "case search suffix_re ''UNDEFINED'' of None \<Rightarrow> True | Some m \<Rightarrow> False"
    by code_simp
  then show ?thesis by (simp split: option.splits)
qed

lemma search_format_urgb:
  "\<exists>m. search format_re (''  R8Urgb = VK_FORMAT_R8_URGB,'' @ [CHR 0x0A]) = Some m
     \<and> group m 3 = Some ''R8_URGB''"
proof -
  have "case search format_re (''  R8Urgb = VK_FORMAT_R8_URGB,'' @ [CHR 0x0A]) of None \<Rightarrow> False
        | Some m \<Rightarrow> group m 3 = Some ''R8_URGB''"
    by code_simp
  then show ?thesis by (simp split: option.splits)
qed

lemma search_suffix_urgb:
  "\<exists>sfx. search suffix_re ''R8_URGB'' = Some sfx \<and> group sfx 1 = Some ''URGB''"
proof -
  have "case search suffix_re ''R8_URGB'' of None \<Rightarrow> False | Some m \<Rightarrow> group m 1 = Some ''URGB''"
    by code_simp
  then show ?thesis by (simp split: option.splits)
qed

lemma readlines_line:
  "CHR 0x0A \<notin> set l \<Longrightarrow> readlines_from cur (l @ [CHR 0x0A]) = [cur @ l @ [CHR 0x0A]]"
  by (induction l arbitrary: cur) auto

lemma table_example:
  "vulkan_formats_loop Map.empty [''  VK_FORMAT_R8_UNORM = 9,'' @ [CHR 0x0A]]
     = Inr [''R8_UNORM'' \<mapsto> ''9'']"
  using search_vk_example by auto

lemma build_example:
  "build ''magnum'' (world_of (''  VK_FORMAT_R8_UNORM = 9,'' @ [CHR 0x0A])
       (''  R8Unorm = VK_FORMAT_R8_UNORM,'' @ [CHR 0x0A]))
     = Inr [\<lparr>compressed = False, magnum = ''R8Unorm'', vulkan_name = ''R8_UNORM'',
              vulkan = ''9'', suffix = ''UNORM''\<rparr>]"
  by code_simp

lemma emit_files:
  "files (emit fs w) ''formatMapping.hpp'' =
     Some (table ''/* VkFormat, PixelFormat, Implementation::VkFormatSuffix */''
             (filter (\<lambda>f. \<not> compressed f) fs))"
  "files (emit fs w) ''compressedFormatMapping.hpp'' =
     Some (table ''/* VkFormat, CompressedPixelFormat, Implementation::VkFormatSuffix */''
             (filter (\<lambda>f. compressed f \<and> \<not> startswith (magnum f) ''Pvrtc2'') fs))"
  by (simp_all add: emit_def partition_py_def write_file_def print_def Let_def conj_commute)

lemma emit_stdout:
  "stdout (emit fs w) =
     (if length fs = 135 then stdout w
      else stdout w @ ''Unexpected number of formats'' @ [CHR 0x0A])"
  by (simp add: emit_def partition_py_def write_file_def print_def Let_def)

lemma emit_other_files:
  "p \<noteq> ''formatMapping.hpp'' \<Longrightarrow> p \<noteq> ''compressedFormatMapping.hpp'' \<Longrightarrow>
     files (emit fs w) p = files w p"
  by (simp add: emit_def partition_py_def write_file_def print_def Let_def)

lemma list_all2_rightD:
  "list_all2 P xs ys \<Longrightarrow> y \<in> set ys \<Longrightarrow> \<exists>x \<in> set xs. P x y"
  by (induction rule: list_all2_induct) auto

lemma not_word_bar: "\<not> is_word (CHR ''|'')"
  by (simp add: is_word_def)

lemma built_record:
  assumes "built tbl l f"
  shows "\<exists>m. search format_re l = Some m \<and> group m 3 = Some (vulkan_name f)
           \<and> group m 2 = Some (magnum f) \<and> compressed f = (group m 1 \<noteq> None)
           \<and> tbl (vulkan_name f) = Some (vulkan f) \<and> list_all is_word (vulkan_name f)"
proof -
  from assms obtain m sfx where m: "search format_re l = Some m"
    and d: "the (group m 3) \<in> dom tbl"
    and f: "f = \<lparr>compressed = (group m 1 \<noteq> None), magnum = the (group m 2),
                vulkan_name = the (group m 3), vulkan = the (tbl (the (group m 3))),
                suffix = the (group sfx 1)\<rparr>"
    unfolding built_def by blast
  from format_re_groups [OF m] obtain a b where
    g: "group m 2 = Some a" "group m 3 = Some b" "list_all is_word b" by blast
  from d g obtain v where "tbl b = Some v" by auto
  with m g f show ?thesis by simp
qed

lemma built_suffix:
  assumes "built tbl l f"
  shows "\<exists>sfx m k. search suffix_re (vulkan_name f) = Some sfx \<and> group sfx 1 = Some (suffix f)
           \<and> suffix f = m # k \<and> m \<in> set ''US'' \<and> k \<in> set [''NORM'', ''INT'', ''FLOAT'', ''RGB'']
           \<and> suffix f \<noteq> ''URGB''"
proof -
  from assms obtain mt sfx where mt: "search format_re l = Some mt"
    and s: "search suffix_re (the (group mt 3)) = Some sfx" "group sfx 1 \<noteq> Some ''URGB''"
    and f: "f = \<lparr>compressed = (group mt 1 \<noteq> None), magnum = the (group mt 2),
                vulkan_name = the (group mt 3), vulkan = the (tbl (the (group mt 3))),
                suffix = the (group sfx 1)\<rparr>"
    unfolding built_def by blast
  from format_re_groups [OF mt] obtain b where
    g: "group mt 3 = Some b" "list_all is_word b" by blast
  from s(1) g have sb: "search suffix_re b = Some sfx" by simp
  from suffix_some [OF sb] obtain j t where
    t: "token_at b j = Some t" "group sfx 1 = Some t" by blast
  from token_at_SomeD [OF t(1)] obtain m k q where
    d: "b = take j b @ ''_'' @ [m] @ k @ q" "m \<in> set ''U|S''"
       "k \<in> set [''NORM'', ''INT'', ''FLOAT'', ''RGB'']" "t = m # k" by blast
  have "m \<in> set b" by (subst d(1)) simp
  with g(2) have "is_word m" by (simp add: list_all_iff)
  with d(2) not_word_bar have m: "m \<in> set ''US''" by auto
  have vn: "vulkan_name f = b" "suffix f = t" using f g t by simp_all
  from s(2) t(2) have "t \<noteq> ''URGB''" by simp
  with sb t(2) d(3,4) m show ?thesis unfolding vn by blast
qed

lemma seven_suffixes:
  assumes "m \<in> set ''US''" and "k \<in> set [''NORM'', ''INT'', ''FLOAT'', ''RGB'']"
    and "m # k \<noteq> ''URGB''"
  shows "m # k \<in> {''UNORM'', ''SNORM'', ''UINT'', ''SINT'', ''UFLOAT'', ''SFLOAT'', ''SRGB''}"
  using assms by auto

lemma build_built:
  assumes "build d w = Inr fs" and "f \<in> set fs"
  shows "\<exists>tbl l. built tbl l f"
proof -
  from build_InrD [OF assms(1)] obtain text2 tbl where
    "formats_loop tbl [] (readlines text2) = Inr fs" by blast
  from formats_loop_built [OF this]
  have "list_all2 (built tbl) (filter (\<lambda>l. search format_re l \<noteq> None) (readlines text2)) fs"
    by simp
  from list_all2_rightD [OF this assms(2)] show ?thesis by blast
qed

lemma rightmost_by_eval:
  assumes none: "list_all (\<lambda>j. token_at name j = None) [Suc n..<length name]"
    and d: "name = p' @ ''_'' @ [m'] @ k' @ q'" and m: "m' \<in> set ''U|S''"
    and k: "k' \<in> set [''NORM'', ''INT'', ''FLOAT'', ''RGB'']"
  shows "length p' \<le> n"
proof (rule ccontr)
  assume "\<not> length p' \<le> n"
  then have lo: "Suc n \<le> length p'" by simp
  have t: "token_at name (length p') = Some (m' # k')"
    unfolding d by (rule token_at_decomp [OF m k])
  from token_at_bound [OF t] have "length p' < length name" by simp
  with lo none have "token_at name (length p') = None" by (simp add: list_all_iff)
  with t show False by simp
qed

lemma built_line:
  assumes "built tbl l f"
  shows "search format_re l \<noteq> None"
  using assms unfolding built_def by auto

lemma suffix_rightmost_decomp:
  assumes word: "list_all is_word name"
    and here: "name = p @ ''_'' @ [m] @ k @ q" "p \<noteq> []" "m \<in> set ''U|S''"
      "k \<in> set [''NORM'', ''INT'', ''FLOAT'', ''RGB'']"
    and rightmost: "\<And>p' m' k' q'. name = p' @ ''_'' @ [m'] @ k' @ q' \<Longrightarrow> m' \<in> set ''U|S'' \<Longrightarrow>
      k' \<in> set [''NORM'', ''INT'', ''FLOAT'', ''RGB''] \<Longrightarrow> length p' \<le> length p"
  shows "\<exists>sfx. search suffix_re name = Some sfx \<and> group sfx 1 = Some (m # k)"
proof (rule suffix_rightmost [OF word])
  show "1 \<le> length p" using here(2) by (cases p) auto
  show "token_at name (length p) = Some (m # k)"
    unfolding here(1) by (rule token_at_decomp [OF here(3,4)])
  fix j assume j: "length p < j"
  show "token_at name j = None"
  proof (rule ccontr)
    assume "token_at name j \<noteq> None"
    then obtain t where "token_at name j = Some t" by auto
    from token_at_SomeD [OF this] obtain m' k' q' where
      d: "name = take j name @ ''_'' @ [m'] @ k' @ q'" "m' \<in> set ''U|S''"
      "k' \<in> set [''NORM'', ''INT'', ''FLOAT'', ''RGB'']" "j < length name" by blast
    from rightmost [OF d(1,2,3)] d(4) j show False by simp
  qed
qed

lemma search_suffix_r32:
  "list_all (\<lambda>j. token_at ''R32_SFLOAT'' j = None) [Suc (length ''R32'')..<length ''R32_SFLOAT'']"
  by code_simp

lemma search_format_bc1:
  "\<exists>m. search format_re (''  CompressedBc1RGBAUnorm = VK_FORMAT_BC1_RGBA_UNORM_BLOCK,'' @ [CHR 0x0A]) = Some m
     \<and> group m 1 = Some ''Compressed'' \<and> group m 2 = Some ''Bc1RGBAUnorm''
     \<and> group m 3 = Some ''BC1_RGBA_UNORM_BLOCK''"
proof -
  have "case search format_re (''  CompressedBc1RGBAUnorm = VK_FORMAT_BC1_RGBA_UNORM_BLOCK,'' @ [CHR 0x0A]) of
          None \<Rightarrow> False
        | Some m \<Rightarrow> group m 1 = Some ''Compressed'' \<and> group m 2 = Some ''Bc1RGBAUnorm''
            \<and> group m 3 = Some ''BC1_RGBA_UNORM_BLOCK''"
    by code_simp
  then show ?thesis by (simp split: option.splits)
qed

lemma search_suffix_bc1:
  "\<exists>sfx. search suffix_re ''BC1_RGBA_UNORM_BLOCK'' = Some sfx \<and> group sfx 1 = Some ''UNORM''"
proof -
  have "case search suffix_re ''BC1_RGBA_UNORM_BLOCK'' of None \<Rightarrow> False
        | Some m \<Rightarrow> group m 1 = Some ''UNORM''"
    by code_simp
  then show ?thesis by (simp split: option.splits)
qed

lemma formats_loop_bc1:
  assumes "tbl ''BC1_RGBA_UNORM_BLOCK'' = Some v"
  shows "formats_loop tbl [] [''  CompressedBc1RGBAUnorm = VK_FORMAT_BC1_RGBA_UNORM_BLOCK,'' @ [CHR 0x0A]]
     = Inr [\<lparr>compressed = True, magnum = ''Bc1RGBAUnorm'', vulkan_name = ''BC1_RGBA_UNORM_BLOCK'',
             vulkan = v, suffix = ''UNORM''\<rparr>]"
proof -
  obtain m where m: "search format_re (''  CompressedBc1RGBAUnorm = VK_FORMAT_BC1_RGBA_UNORM_BLOCK,'' @ [CHR 0x0A]) = Some m"
    "group m 1 = Some ''Compressed''" "group m 2 = Some ''Bc1RGBAUnorm''"
    "group m 3 = Some ''BC1_RGBA_UNORM_BLOCK''"
    using search_format_bc1 by blast
  obtain sfx where s: "search suffix_re ''BC1_RGBA_UNORM_BLOCK'' = Some sfx"
    "group sfx 1 = Some ''UNORM''"
    using search_suffix_bc1 by blast
  have "formats_loop tbl [] [''  CompressedBc1RGBAUnorm = VK_FORMAT_BC1_RGBA_UNORM_BLOCK,'' @ [CHR 0x0A]]
      = Inr ([] @ [\<lparr>compressed = (group m 1 \<noteq> None), magnum = the (group m 2),
                vulkan_name = the (group m 3), vulkan = the (tbl (the (group m 3))),
                suffix = the (group sfx 1)\<rparr>])"
    unfolding formats_loop.simps m(1) option.case Let_def m(4) option.sel s(1)
    using assms s(2) by (simp add: domI)
  then show ?thesis unfolding m s option.sel using assms by simp
qed

lemma header_paths:
  "vulkan_header d \<noteq> ''formatMapping.hpp''"
  "vulkan_header d \<noteq> ''compressedFormatMapping.hpp''"
  "format_header d \<noteq> ''formatMapping.hpp''"
  "format_header d \<noteq> ''compressedFormatMapping.hpp''"
proof -
  have "last (vulkan_header d) = CHR ''h''" "last (format_header d) = CHR ''h''"
    by (simp_all add: vulkan_header_def format_header_def os_path_join_def)
  then show "vulkan_header d \<noteq> ''formatMapping.hpp''"
    "vulkan_header d \<noteq> ''compressedFormatMapping.hpp''"
    "format_header d \<noteq> ''formatMapping.hpp''"
    "format_header d \<noteq> ''compressedFormatMapping.hpp''"
    by auto
qed

lemma build_cong:
  assumes "files w1 (vulkan_header d) = files w2 (vulkan_header d)"
    and "files w1 (format_header d) = files w2 (format_header d)"
  shows "build d w1 = build d w2"
  unfolding build_def open_read_def assms ..

lemma build_emit: "build d (emit fs w) = build d w"
  by (rule build_cong) (simp_all add: emit_other_files header_paths)

lemma emit_twice: "files (emit fs (emit fs w)) = files (emit fs w)"
  by (simp add: emit_def partition_py_def write_file_def print_def Let_def)

lemma vulkan_loop_mono:
  "vulkan_formats_loop tbl lines = Inr tbl' \<Longrightarrow> tbl k = Some v \<Longrightarrow> tbl' k = Some v"
proof (induction lines arbitrary: tbl)
  case Nil
  then show ?case by simp
next
  case (Cons x xs)
  show ?case
  proof (cases "search vk_re x")
    case None
    with Cons.prems have "vulkan_formats_loop tbl xs = Inr tbl'" by simp
    from Cons.IH [OF this Cons.prems(2)] show ?thesis .
  next
    case (Some m)
    with Cons.prems have nd: "the (group m 1) \<notin> dom tbl"
      and rec: "vulkan_formats_loop (tbl(the (group m 1) \<mapsto> the (group m 2))) xs = Inr tbl'"
      by (auto split: if_splits)
    from nd Cons.prems(2) have "k \<noteq> the (group m 1)" by auto
    with Cons.prems(2) have "(tbl(the (group m 1) \<mapsto> the (group m 2))) k = Some v" by simp
    from Cons.IH [OF rec this] show ?thesis .
  qed
qed

lemma vulkan_loop_stores:
  assumes "vulkan_formats_loop tbl lines = Inr tbl'" and "l \<in> set lines"
    and "search vk_re l = Some m"
  shows "tbl' (the (group m 1)) = group m 2"
  using assms
proof (induction lines arbitrary: tbl)
  case Nil
  then show ?case by simp
next
  case (Cons x xs)
  show ?case
  proof (cases "search vk_re x")
    case None
    with Cons.prems have "vulkan_formats_loop tbl xs = Inr tbl'" "l \<in> set xs" by auto
    from Cons.IH [OF this Cons.prems(3)] show ?thesis .
  next
    case (Some mx)
    with Cons.prems have
      rec: "vulkan_formats_loop (tbl(the (group mx 1) \<mapsto> the (group mx 2))) xs = Inr tbl'"
      by (auto split: if_splits)
    show ?thesis
    proof (cases "l = x")
      case True
      with Some Cons.prems(3) have mx: "mx = m" by simp
      from vk_re_groups [OF Cons.prems(3)] obtain v where v: "group m 2 = Some v" by blast
      have "(tbl(the (group mx 1) \<mapsto> the (group mx 2))) (the (group m 1)) = Some v"
        using mx v by simp
      from vulkan_loop_mono [OF rec this] v show ?thesis by simp
    next
      case False
      with Cons.prems(2) have "l \<in> set xs" by simp
      from Cons.IH [OF rec this Cons.prems(3)] show ?thesis .
    qed
  qed
qed

lemma vulkan_loop_ok:
  assumes "distinct (map (\<lambda>l. the (group (the (search vk_re l)) 1))
             (filter (\<lambda>l. search vk_re l \<noteq> None) lines))"
    and "\<And>l. l \<in> set lines \<Longrightarrow> search vk_re l \<noteq> None \<Longrightarrow>
           the (group (the (search vk_re l)) 1) \<notin> dom tbl"
  shows "\<exists>tbl'. vulkan_formats_loop tbl lines = Inr tbl'"
  using assms
proof (induction lines arbitrary: tbl)
  case Nil
  then show ?case by simp
next
  case (Cons x xs)
  show ?case
  proof (cases "search vk_re x")
    case None
    with Cons.prems have "distinct (map (\<lambda>l. the (group (the (search vk_re l)) 1))
             (filter (\<lambda>l. search vk_re l \<noteq> None) xs))" by simp
    from Cons.IH [OF this] Cons.prems(2) None show ?thesis by simp
  next
    case (Some m)
    from Cons.prems(2) [of x] Some have nd: "the (group m 1) \<notin> dom tbl" by simp
    from Cons.prems(1) Some have
      d: "distinct (map (\<lambda>l. the (group (the (search vk_re l)) 1))
             (filter (\<lambda>l. search vk_re l \<noteq> None) xs))"
      and notin: "the (group m 1) \<notin> set (map (\<lambda>l. the (group (the (search vk_re l)) 1))
             (filter (\<lambda>l. search vk_re l \<noteq> None) xs))"
      by simp_all
    have fresh: "the (group (the (search vk_re l)) 1) \<noteq> the (group m 1)"
      if "l \<in> set xs" "search vk_re l \<noteq> None" for l
    proof
      assume e: "the (group (the (search vk_re l)) 1) = the (group m 1)"
      from that have "the (group (the (search vk_re l)) 1)
          \<in> set (map (\<lambda>l. the (group (the (search vk_re l)) 1))
             (filter (\<lambda>l. search vk_re l \<noteq> None) xs))"
        unfolding set_map by (intro imageI) simp
      with e notin show False by simp
    qed
    have "\<exists>tbl'. vulkan_formats_loop (tbl(the (group m 1) \<mapsto> the (group m 2))) xs = Inr tbl'"
    proof (rule Cons.IH [OF d])
      fix l assume l: "l \<in> set xs" "search vk_re l \<noteq> None"
      from Cons.prems(2) [of l] l fresh [OF l]
      show "the (group (the (search vk_re l)) 1) \<notin> dom (tbl(the (group m 1) \<mapsto> the (group m 2)))"
        by simp
    qed
    with Some nd show ?thesis by simp
  qed
qed

lemma formats_loop_ok:
  assumes "\<And>l m. l \<in> set lines \<Longrightarrow> search format_re l = Some m \<Longrightarrow>
             the (group m 3) \<in> dom tbl \<and>
             (\<exists>sfx. search suffix_re (the (group m 3)) = Some sfx \<and> group sfx 1 \<noteq> Some ''URGB'')"
  shows "\<exists>fs. formats_loop tbl fs0 lines = Inr fs"
  using assms
proof (induction lines arbitrary: fs0)
  case Nil
  then show ?case by simp
next
  case (Cons x xs)
  have IH: "\<exists>fs. formats_loop tbl fs1 xs = Inr fs" for fs1
    by (rule Cons.IH) (rule Cons.prems, simp_all)
  show ?case
  proof (cases "search format_re x")
    case None
    with IH show ?thesis by simp
  next
    case (Some m)
    from Cons.prems [of x m] Some obtain sfx where
      "the (group m 3) \<in> dom tbl" "search suffix_re (the (group m 3)) = Some sfx"
      "group sfx 1 \<noteq> Some ''URGB''" by auto
    with Some IH show ?thesis by (simp add: Let_def)
  qed
qed

lemma search_format_r8:
  "\<exists>m. search format_re (''  R8Unorm = VK_FORMAT_R8_UNORM,'' @ [CHR 0x0A]) = Some m
     \<and> group m 3 = Some ''R8_UNORM''"
proof -
  have "case search format_re (''  R8Unorm = VK_FORMAT_R8_UNORM,'' @ [CHR 0x0A]) of None \<Rightarrow> False
        | Some m \<Rightarrow> group m 3 = Some ''R8_UNORM''"
    by code_simp
  then show ?thesis by (simp split: option.splits)
qed

lemma search_suffix_r8:
  "\<exists>sfx. search suffix_re ''R8_UNORM'' = Some sfx \<and> group sfx 1 = Some ''UNORM''"
proof -
  have "case search suffix_re ''R8_UNORM'' of None \<Rightarrow> False | Some m \<Rightarrow> group m 1 = Some ''UNORM''"
    by code_simp
  then show ?thesis by (simp split: option.splits)
qed

lemma readlines_format_r8:
  "readlines (''  R8Unorm = VK_FORMAT_R8_UNORM,'' @ [CHR 0x0A])
     = [''  R8Unorm = VK_FORMAT_R8_UNORM,'' @ [CHR 0x0A]]"
  by (simp add: readlines_def)

section \<open>The claims\<close>

text \<open>
  Claim C10. When a source identifier (word characters only) holds more than one
  classification token, the suffix is the rightmost one: if a token \<open>m # k\<close> follows an
  underscore after a non-empty prefix \<open>p\<close>, and every other such occurrence starts no
  later, then \<^verbatim>\<open>suffix.group(1)\<close> is \<open>m # k\<close>. The greedy \<^verbatim>\<open>\w+\<close> takes all of the
  identifier and gives characters back one at a time.
\<close>

theorem suffix_is_rightmost_token:
  assumes word: "list_all is_word name"
    and here: "name = p @ ''_'' @ [m] @ k @ q" "p \<noteq> []" "m \<in> set ''U|S''"
      "k \<in> set [''NORM'', ''INT'', ''FLOAT'', ''RGB'']"
    and rightmost: "\<And>p' m' k' q'. name = p' @ ''_'' @ [m'] @ k' @ q' \<Longrightarrow> m' \<in> set ''U|S'' \<Longrightarrow>
      k' \<in> set [''NORM'', ''INT'', ''FLOAT'', ''RGB''] \<Longrightarrow> length p' \<le> length p"
  shows "\<exists>sfx. search suffix_re name = Some sfx \<and> group sfx 1 = Some (m # k)"
  by (rule suffix_rightmost_decomp [OF assms])

text \<open>The identifier \<^verbatim>\<open>X_SFLOAT_SRGB\<close> yields \<^verbatim>\<open>SRGB\<close>, not \<^verbatim>\<open>SFLOAT\<close>.\<close>

theorem suffix_is_rightmost_token_witness:
  "\<exists>sfx. search suffix_re ''X_SFLOAT_SRGB'' = Some sfx \<and> group sfx 1 = Some ''SRGB''"
proof -
  have r: "length p' \<le> length ''X_SFLOAT''"
    if d: "''X_SFLOAT_SRGB'' = p' @ ''_'' @ [m'] @ k' @ q'" and m: "m' \<in> set ''U|S''"
      and k: "k' \<in> set [''NORM'', ''INT'', ''FLOAT'', ''RGB'']" for p' m' k' q'
  proof (rule ccontr)
    assume "\<not> length p' \<le> length ''X_SFLOAT''"
    then have lo: "9 \<le> length p'" by simp
    have t: "token_at ''X_SFLOAT_SRGB'' (length p') = Some (m' # k')"
      unfolding d by (rule token_at_decomp [OF m k])
    then have "Suc (length p') < 13" by (auto simp: token_at_def split: if_splits)
    with lo have "length p' = 9 \<or> length p' = 10 \<or> length p' = 11" by arith
    with t show False by (auto simp: token_at_def)
  qed
  have w: "list_all is_word ''X_SFLOAT_SRGB''" by (simp add: is_word_def)
  have e: "''X_SFLOAT_SRGB'' = ''X_SFLOAT'' @ ''_'' @ [CHR ''S''] @ ''RGB'' @ []" by simp
  have "\<exists>sfx. search suffix_re ''X_SFLOAT_SRGB'' = Some sfx
          \<and> group sfx 1 = Some (CHR ''S'' # ''RGB'')"
  proof (rule suffix_is_rightmost_token [OF w e])
    show "''X_SFLOAT'' \<noteq> []" by simp
    show "CHR ''S'' \<in> set ''U|S''" by simp
    show "''RGB'' \<in> set [''NORM'', ''INT'', ''FLOAT'', ''RGB'']" by simp
  qed (rule r)
  then show ?thesis .
qed

text \<open>
  Claim C1. With a first header that is the line \<^verbatim>\<open>  VK_FORMAT_R8_UNORM = 9,\<close> and a second
  header that is the line \<^verbatim>\<open>  R8Unorm = VK_FORMAT_R8_UNORM,\<close>, the script ends normally and
  \<^verbatim>\<open>formatMapping.hpp\<close> has the line \<^verbatim>\<open>_c(9, R8Unorm, UNORM) /* VK_FORMAT_R8_UNORM */\<close>.
\<close>

theorem end_to_end_example:
  "(let w = \<lparr>files = [vulkan_header ''magnum'' \<mapsto> ''  VK_FORMAT_R8_UNORM = 9,'' @ [CHR 0x0A],
                       format_header ''magnum'' \<mapsto> ''  R8Unorm = VK_FORMAT_R8_UNORM,'' @ [CHR 0x0A]],
               stdout = []\<rparr>
    in snd (script ''magnum'' w) = None \<and>
       (case files (fst (script ''magnum'' w)) ''formatMapping.hpp'' of
          None \<Rightarrow> False
        | Some out \<Rightarrow>
            ''_c(9, R8Unorm, UNORM) /* VK_FORMAT_R8_UNORM */'' @ [CHR 0x0A] \<in> set (readlines out)))"
  by code_simp

text \<open>
  Claim C3. With the first header readable, each of the four conditions ends the script
  with an \<open>AssertionError\<close>, the world as it was, and exit status 1: (1) two qualifying
  lines of the first header give the same symbol; (2) a mapping line names an identifier
  that the Constant Table does not have; (3) the suffix pattern does not match the
  identifier; (4) the suffix is \<^verbatim>\<open>URGB\<close>.
\<close>

theorem fatal_conditions:
  assumes f1: "files w (vulkan_header d) = Some text1"
    and cond:
      "(\<exists>pre l1 mid l2 post m1 m2. readlines text1 = pre @ l1 # mid @ l2 # post
          \<and> search vk_re l1 = Some m1 \<and> search vk_re l2 = Some m2 \<and> group m1 1 = group m2 1)
       \<or> (\<exists>text2 l m vname. files w (format_header d) = Some text2 \<and> l \<in> set (readlines text2)
            \<and> search format_re l = Some m \<and> group m 3 = Some vname
            \<and> ((\<forall>tbl. vulkan_formats_loop Map.empty (readlines text1) = Inr tbl \<longrightarrow> vname \<notin> dom tbl)
               \<or> search suffix_re vname = None
               \<or> (\<exists>sfx. search suffix_re vname = Some sfx \<and> group sfx 1 = Some ''URGB'')))"
  shows "script d w = (w, Some AssertionError) \<and> exit_status (snd (script d w)) = 1"
proof -
  have "build d w = Inl AssertionError"
    using cond
  proof (elim disjE exE conjE)
    fix pre l1 mid l2 post m1 m2
    assume "readlines text1 = pre @ l1 # mid @ l2 # post" "search vk_re l1 = Some m1"
      "search vk_re l2 = Some m2" "group m1 1 = group m2 1"
    then have "vulkan_formats_loop Map.empty (readlines text1) = Inl AssertionError"
      by (rule vulkan_loop_duplicate)
    then show ?thesis by (rule build_first_fails [OF f1])
  next
    fix text2 l m vname
    assume f2: "files w (format_header d) = Some text2" and l: "l \<in> set (readlines text2)"
      and m: "search format_re l = Some m" "group m 3 = Some vname"
      and "\<forall>tbl. vulkan_formats_loop Map.empty (readlines text1) = Inr tbl \<longrightarrow> vname \<notin> dom tbl"
    then show ?thesis
      by (intro build_second_fatal [OF f1 f2 l] step_absent [OF m(1)]) simp
  next
    fix text2 l m vname
    assume f2: "files w (format_header d) = Some text2" and l: "l \<in> set (readlines text2)"
      and m: "search format_re l = Some m" "group m 3 = Some vname"
      and "search suffix_re vname = None"
    then show ?thesis
      by (intro build_second_fatal [OF f1 f2 l] step_no_suffix [OF m(1)]) simp
  next
    fix text2 l m vname sfx
    assume f2: "files w (format_header d) = Some text2" and l: "l \<in> set (readlines text2)"
      and m: "search format_re l = Some m" "group m 3 = Some vname"
      and "search suffix_re vname = Some sfx" "group sfx 1 = Some ''URGB''"
    then show ?thesis
      by (intro build_second_fatal [OF f1 f2 l] step_urgb [OF m(1), of sfx]) simp_all
  qed
  then show ?thesis by (simp add: script_def exit_status_def)
qed

text \<open>
  The four conditions, each on a pair of headers that meets it.
\<close>

theorem fatal_conditions_witness:
  "script ''magnum'' (world_of ((''  VK_FORMAT_R8_UNORM = 9,'' @ [CHR 0x0A]) @ (''  VK_FORMAT_R8_UNORM = 9,'' @ [CHR 0x0A])) [])
     = (world_of ((''  VK_FORMAT_R8_UNORM = 9,'' @ [CHR 0x0A]) @ (''  VK_FORMAT_R8_UNORM = 9,'' @ [CHR 0x0A])) [], Some AssertionError)
   \<and> script ''magnum'' (world_of (''  VK_FORMAT_R8_UNORM = 9,'' @ [CHR 0x0A]) (''  R8Snorm = VK_FORMAT_R8_SNORM,'' @ [CHR 0x0A]))
     = (world_of (''  VK_FORMAT_R8_UNORM = 9,'' @ [CHR 0x0A]) (''  R8Snorm = VK_FORMAT_R8_SNORM,'' @ [CHR 0x0A]), Some AssertionError)
   \<and> script ''magnum'' (world_of (''  VK_FORMAT_UNDEFINED = 0,'' @ [CHR 0x0A]) (''  Undefined = VK_FORMAT_UNDEFINED,'' @ [CHR 0x0A]))
     = (world_of (''  VK_FORMAT_UNDEFINED = 0,'' @ [CHR 0x0A]) (''  Undefined = VK_FORMAT_UNDEFINED,'' @ [CHR 0x0A]), Some AssertionError)
   \<and> script ''magnum'' (world_of (''  VK_FORMAT_R8_URGB = 7,'' @ [CHR 0x0A]) (''  R8Urgb = VK_FORMAT_R8_URGB,'' @ [CHR 0x0A]))
     = (world_of (''  VK_FORMAT_R8_URGB = 7,'' @ [CHR 0x0A]) (''  R8Urgb = VK_FORMAT_R8_URGB,'' @ [CHR 0x0A]), Some AssertionError)"
proof (intro conjI)
  let ?L = "''  VK_FORMAT_R8_UNORM = 9,'' @ [CHR 0x0A]"
  obtain m where m: "search vk_re ?L = Some m" using search_vk_example by blast
  have "\<exists>pre l1 mid l2 post m1 m2. readlines (?L @ ?L) = pre @ l1 # mid @ l2 # post
          \<and> search vk_re l1 = Some m1 \<and> search vk_re l2 = Some m2 \<and> group m1 1 = group m2 1"
    using readlines_two m by blast
  then show "script ''magnum'' (world_of (?L @ ?L) []) = (world_of (?L @ ?L) [], Some AssertionError)"
    using fatal_conditions [OF world_of_files(1), of "?L @ ?L" "[]"] by blast
next
  let ?L = "''  VK_FORMAT_R8_UNORM = 9,'' @ [CHR 0x0A]"
  let ?F = "''  R8Snorm = VK_FORMAT_R8_SNORM,'' @ [CHR 0x0A]"
  obtain m where m: "search format_re ?F = Some m" "group m 3 = Some ''R8_SNORM''"
    using search_format_absent by blast
  have l: "?F \<in> set (readlines ?F)" by (simp add: readlines_def readlines_line)
  have a: "\<forall>tbl. vulkan_formats_loop Map.empty (readlines ?L) = Inr tbl \<longrightarrow> ''R8_SNORM'' \<notin> dom tbl"
    unfolding readlines_one table_example by simp
  show "script ''magnum'' (world_of ?L ?F) = (world_of ?L ?F, Some AssertionError)"
    using fatal_conditions [OF world_of_files(1), of ?L ?F] world_of_files(2) [of ?L ?F] l m a
    by blast
next
  let ?L = "''  VK_FORMAT_UNDEFINED = 0,'' @ [CHR 0x0A]"
  let ?F = "''  Undefined = VK_FORMAT_UNDEFINED,'' @ [CHR 0x0A]"
  obtain m where m: "search format_re ?F = Some m" "group m 3 = Some ''UNDEFINED''"
    using search_format_undefined by blast
  have l: "?F \<in> set (readlines ?F)" by (simp add: readlines_def readlines_line)
  show "script ''magnum'' (world_of ?L ?F) = (world_of ?L ?F, Some AssertionError)"
    using fatal_conditions [OF world_of_files(1), of ?L ?F] world_of_files(2) [of ?L ?F] l m
      search_suffix_undefined
    by blast
next
  let ?L = "''  VK_FORMAT_R8_URGB = 7,'' @ [CHR 0x0A]"
  let ?F = "''  R8Urgb = VK_FORMAT_R8_URGB,'' @ [CHR 0x0A]"
  obtain m where m: "search format_re ?F = Some m" "group m 3 = Some ''R8_URGB''"
    using search_format_urgb by blast
  have l: "?F \<in> set (readlines ?F)" by (simp add: readlines_def readlines_line)
  show "script ''magnum'' (world_of ?L ?F) = (world_of ?L ?F, Some AssertionError)"
    using fatal_conditions [OF world_of_files(1), of ?L ?F] world_of_files(2) [of ?L ?F] l m
      search_suffix_urgb
    by blast
qed

text \<open>
  Claim C4. When the mapping header has an entry whose identifier yields the suffix
  \<^verbatim>\<open>URGB\<close>, the script ends with an exception and the world is the one it started in:
  neither output file has been opened or written.
\<close>

theorem no_output_on_urgb:
  assumes f2: "files w (format_header d) = Some text2" and l: "l \<in> set (readlines text2)"
    and m: "search format_re l = Some m" "group m 3 = Some vname"
    and s: "search suffix_re vname = Some sfx" "group sfx 1 = Some ''URGB''"
  shows "fst (script d w) = w \<and> snd (script d w) \<noteq> None
         \<and> files (fst (script d w)) ''formatMapping.hpp'' = files w ''formatMapping.hpp''
         \<and> files (fst (script d w)) ''compressedFormatMapping.hpp''
             = files w ''compressedFormatMapping.hpp''"
proof -
  have "\<exists>e. build d w = Inl e"
  proof (cases "files w (vulkan_header d)")
    case None
    then show ?thesis by (simp add: build_def open_read_def)
  next
    case (Some text1)
    have "build d w = Inl AssertionError"
      using m s by (intro build_second_fatal [OF Some f2 l] step_urgb [OF m(1), of sfx]) simp_all
    then show ?thesis by blast
  qed
  then show ?thesis by (auto simp: script_def)
qed

text \<open>
  On headers with the entry \<^verbatim>\<open>R8Urgb = VK_FORMAT_R8_URGB\<close> and no output file before the
  run, there is none after it.
\<close>

theorem no_output_on_urgb_witness:
  "snd (script ''magnum'' (world_of (''  VK_FORMAT_R8_URGB = 7,'' @ [CHR 0x0A])
          (''  R8Urgb = VK_FORMAT_R8_URGB,'' @ [CHR 0x0A]))) \<noteq> None
   \<and> files (fst (script ''magnum'' (world_of (''  VK_FORMAT_R8_URGB = 7,'' @ [CHR 0x0A])
          (''  R8Urgb = VK_FORMAT_R8_URGB,'' @ [CHR 0x0A])))) ''formatMapping.hpp'' = None
   \<and> files (fst (script ''magnum'' (world_of (''  VK_FORMAT_R8_URGB = 7,'' @ [CHR 0x0A])
          (''  R8Urgb = VK_FORMAT_R8_URGB,'' @ [CHR 0x0A])))) ''compressedFormatMapping.hpp'' = None"
proof -
  let ?L = "''  VK_FORMAT_R8_URGB = 7,'' @ [CHR 0x0A]"
  let ?F = "''  R8Urgb = VK_FORMAT_R8_URGB,'' @ [CHR 0x0A]"
  obtain m where m: "search format_re ?F = Some m" "group m 3 = Some ''R8_URGB''"
    using search_format_urgb by blast
  obtain sfx where s: "search suffix_re ''R8_URGB'' = Some sfx" "group sfx 1 = Some ''URGB''"
    using search_suffix_urgb by blast
  have l: "?F \<in> set (readlines ?F)" by (simp add: readlines_def readlines_line)
  have none: "files (world_of ?L ?F) ''formatMapping.hpp'' = None"
    "files (world_of ?L ?F) ''compressedFormatMapping.hpp'' = None"
    by (simp_all add: world_of_def vulkan_header_def format_header_def os_path_join_def)
  from no_output_on_urgb [OF world_of_files(2) l m s, of ?L] none
  show ?thesis by simp
qed

text \<open>
  Claim C5. When both scans succeed, the script ends normally with exit status 0 and both
  output files written, whatever the number of records; the warning is printed exactly
  when that number is not 135.
\<close>

theorem count_check_is_soft:
  assumes "build d w = Inr fs"
  shows "snd (script d w) = None \<and> exit_status (snd (script d w)) = 0
         \<and> stdout (fst (script d w)) =
             (if length fs = 135 then stdout w
              else stdout w @ ''Unexpected number of formats'' @ [CHR 0x0A])
         \<and> files (fst (script d w)) ''formatMapping.hpp'' =
             Some (table ''/* VkFormat, PixelFormat, Implementation::VkFormatSuffix */''
                     (filter (\<lambda>f. \<not> compressed f) fs))
         \<and> files (fst (script d w)) ''compressedFormatMapping.hpp'' =
             Some (table ''/* VkFormat, CompressedPixelFormat, Implementation::VkFormatSuffix */''
                     (filter (\<lambda>f. compressed f \<and> \<not> startswith (magnum f) ''Pvrtc2'') fs))"
  using assms by (simp add: script_def exit_status_def emit_files emit_stdout)

text \<open>
  One record: the warning is printed and the script ends normally.
\<close>

theorem count_check_is_soft_witness:
  "snd (script ''magnum'' (world_of (''  VK_FORMAT_R8_UNORM = 9,'' @ [CHR 0x0A])
          (''  R8Unorm = VK_FORMAT_R8_UNORM,'' @ [CHR 0x0A]))) = None
   \<and> stdout (fst (script ''magnum'' (world_of (''  VK_FORMAT_R8_UNORM = 9,'' @ [CHR 0x0A])
          (''  R8Unorm = VK_FORMAT_R8_UNORM,'' @ [CHR 0x0A]))))
       = ''Unexpected number of formats'' @ [CHR 0x0A]"
  using count_check_is_soft [OF build_example] by (simp add: world_of_def)

text \<open>
  Claim C9. Every record that reaches the emitter has its suffix among \<^verbatim>\<open>UNORM\<close>,
  \<^verbatim>\<open>SNORM\<close>, \<^verbatim>\<open>UINT\<close>, \<^verbatim>\<open>SINT\<close>, \<^verbatim>\<open>UFLOAT\<close>, \<^verbatim>\<open>SFLOAT\<close> and \<^verbatim>\<open>SRGB\<close>. The class
  \<^verbatim>\<open>[U|S]\<close> also takes a bar, but the identifier is what \<^verbatim>\<open>(\w+)\<close> captured: word
  characters only, so no bar stands in it.
\<close>

theorem suffix_in_seven:
  assumes "build d w = Inr fs"
  shows "\<forall>f \<in> set fs.
           suffix f \<in> {''UNORM'', ''SNORM'', ''UINT'', ''SINT'', ''UFLOAT'', ''SFLOAT'', ''SRGB''}
           \<and> list_all is_word (vulkan_name f) \<and> CHR ''|'' \<notin> set (vulkan_name f)"
proof
  fix f assume "f \<in> set fs"
  from build_built [OF assms this] obtain tbl l where b: "built tbl l f" by blast
  from built_suffix [OF b] obtain m k where
    "suffix f = m # k" "m \<in> set ''US''" "k \<in> set [''NORM'', ''INT'', ''FLOAT'', ''RGB'']"
    "suffix f \<noteq> ''URGB''" by blast
  then have "suffix f \<in> {''UNORM'', ''SNORM'', ''UINT'', ''SINT'', ''UFLOAT'', ''SFLOAT'', ''SRGB''}"
    using seven_suffixes [of m k] by simp
  moreover from built_record [OF b] have w: "list_all is_word (vulkan_name f)" by blast
  moreover from w not_word_bar have "CHR ''|'' \<notin> set (vulkan_name f)"
    by (auto simp: list_all_iff)
  ultimately show "suffix f \<in> {''UNORM'', ''SNORM'', ''UINT'', ''SINT'', ''UFLOAT'', ''SFLOAT'', ''SRGB''}
           \<and> list_all is_word (vulkan_name f) \<and> CHR ''|'' \<notin> set (vulkan_name f)" by blast
qed

text \<open>
  The record of the one-line headers has the suffix \<^verbatim>\<open>UNORM\<close>.
\<close>

theorem suffix_in_seven_witness:
  "suffix \<lparr>compressed = False, magnum = ''R8Unorm'', vulkan_name = ''R8_UNORM'',
              vulkan = ''9'', suffix = ''UNORM''\<rparr>
     \<in> {''UNORM'', ''SNORM'', ''UINT'', ''SINT'', ''UFLOAT'', ''SFLOAT'', ''SRGB''}
   \<and> build ''magnum'' (world_of (''  VK_FORMAT_R8_UNORM = 9,'' @ [CHR 0x0A])
       (''  R8Unorm = VK_FORMAT_R8_UNORM,'' @ [CHR 0x0A]))
     = Inr [\<lparr>compressed = False, magnum = ''R8Unorm'', vulkan_name = ''R8_UNORM'',
              vulkan = ''9'', suffix = ''UNORM''\<rparr>]"
  using suffix_in_seven [OF build_example] build_example by simp

text \<open>
  Claim C7. With both headers readable: (1) when both scans succeed, the Constant Table
  holds, for every qualifying line of the first header, the text \<^verbatim>\<open>(\d+)\<close> captured
  on it under the symbol captured on it; the records are, in order, those of the
  qualifying lines of the second header, each with the table's value for its identifier;
  and that value is the digit text of a first-header line that defines the identifier,
  non-empty and kept as it was read. (2) Both scans do succeed when the symbols of the
  first header are distinct and every mapping line names a symbol defined there whose
  suffix is found and is not \<^verbatim>\<open>URGB\<close>; the records then carry the captured values.
\<close>

theorem source_value_from_table:
  assumes f1: "files w (vulkan_header d) = Some text1"
    and f2: "files w (format_header d) = Some text2"
  shows "(build d w = Inr fs \<longrightarrow>
            (\<exists>tbl. vulkan_formats_loop Map.empty (readlines text1) = Inr tbl
               \<and> (\<forall>l \<in> set (readlines text1). \<forall>m. search vk_re l = Some m \<longrightarrow>
                     tbl (the (group m 1)) = group m 2)
               \<and> list_all2 (\<lambda>l f. \<exists>m. search format_re l = Some m \<and> group m 3 = Some (vulkan_name f)
                               \<and> tbl (vulkan_name f) = Some (vulkan f))
                   (filter (\<lambda>l. search format_re l \<noteq> None) (readlines text2)) fs
               \<and> (\<forall>f \<in> set fs. \<exists>l \<in> set (readlines text1). \<exists>m. search vk_re l = Some m
                     \<and> group m 1 = Some (vulkan_name f) \<and> group m 2 = Some (vulkan f)
                     \<and> vulkan f \<noteq> [] \<and> list_all is_digit (vulkan f))))
       \<and> (distinct (map (\<lambda>l. the (group (the (search vk_re l)) 1))
                      (filter (\<lambda>l. search vk_re l \<noteq> None) (readlines text1)))
           \<and> (\<forall>l2 \<in> set (readlines text2). \<forall>m2. search format_re l2 = Some m2 \<longrightarrow>
                 (\<exists>l1 \<in> set (readlines text1). \<exists>m1. search vk_re l1 = Some m1
                    \<and> group m1 1 = group m2 3)
                 \<and> (\<exists>sfx. search suffix_re (the (group m2 3)) = Some sfx
                       \<and> group sfx 1 \<noteq> Some ''URGB''))
          \<longrightarrow> (\<exists>fs'. build d w = Inr fs'
                 \<and> list_all2 (\<lambda>l f. \<exists>m2 l1 m1. search format_re l = Some m2
                       \<and> group m2 3 = Some (vulkan_name f) \<and> l1 \<in> set (readlines text1)
                       \<and> search vk_re l1 = Some m1 \<and> group m1 1 = Some (vulkan_name f)
                       \<and> group m1 2 = Some (vulkan f))
                     (filter (\<lambda>l. search format_re l \<noteq> None) (readlines text2)) fs'))"
proof (intro conjI impI)
  assume b: "build d w = Inr fs"
  from build_InrD [OF b] f1 f2 obtain tbl where
    t: "vulkan_formats_loop Map.empty (readlines text1) = Inr tbl"
    and l: "formats_loop tbl [] (readlines text2) = Inr fs" by auto
  from formats_loop_built [OF l]
  have all: "list_all2 (built tbl) (filter (\<lambda>l. search format_re l \<noteq> None) (readlines text2)) fs"
    by simp
  have zero: "\<forall>l \<in> set (readlines text1). \<forall>m. search vk_re l = Some m \<longrightarrow>
                     tbl (the (group m 1)) = group m 2"
    using vulkan_loop_stores [OF t] by blast
  have one: "list_all2 (\<lambda>l f. \<exists>m. search format_re l = Some m \<and> group m 3 = Some (vulkan_name f)
                               \<and> tbl (vulkan_name f) = Some (vulkan f))
               (filter (\<lambda>l. search format_re l \<noteq> None) (readlines text2)) fs"
    by (rule list_all2_mono [OF all]) (use built_record in blast)
  have two: "\<exists>l \<in> set (readlines text1). \<exists>m. search vk_re l = Some m
                 \<and> group m 1 = Some (vulkan_name f) \<and> group m 2 = Some (vulkan f)
                 \<and> vulkan f \<noteq> [] \<and> list_all is_digit (vulkan f)" if "f \<in> set fs" for f
  proof -
    from list_all2_rightD [OF all that] obtain l0 where "built tbl l0 f" by blast
    from built_record [OF this] have "tbl (vulkan_name f) = Some (vulkan f)" by blast
    from vulkan_loop_Inr [OF t this] obtain l m where
      lm: "l \<in> set (readlines text1)" "search vk_re l = Some m"
        "group m 1 = Some (vulkan_name f)" "group m 2 = Some (vulkan f)" by auto
    from vk_re_groups [OF lm(2)] lm(4) have "vulkan f \<noteq> []" "list_all is_digit (vulkan f)"
      by auto
    with lm show ?thesis by blast
  qed
  from t zero one two
  show "\<exists>tbl. vulkan_formats_loop Map.empty (readlines text1) = Inr tbl
               \<and> (\<forall>l \<in> set (readlines text1). \<forall>m. search vk_re l = Some m \<longrightarrow>
                     tbl (the (group m 1)) = group m 2)
               \<and> list_all2 (\<lambda>l f. \<exists>m. search format_re l = Some m \<and> group m 3 = Some (vulkan_name f)
                               \<and> tbl (vulkan_name f) = Some (vulkan f))
                   (filter (\<lambda>l. search format_re l \<noteq> None) (readlines text2)) fs
               \<and> (\<forall>f \<in> set fs. \<exists>l \<in> set (readlines text1). \<exists>m. search vk_re l = Some m
                     \<and> group m 1 = Some (vulkan_name f) \<and> group m 2 = Some (vulkan f)
                     \<and> vulkan f \<noteq> [] \<and> list_all is_digit (vulkan f))"
    by blast
next
  assume a: "distinct (map (\<lambda>l. the (group (the (search vk_re l)) 1))
                      (filter (\<lambda>l. search vk_re l \<noteq> None) (readlines text1)))
           \<and> (\<forall>l2 \<in> set (readlines text2). \<forall>m2. search format_re l2 = Some m2 \<longrightarrow>
                 (\<exists>l1 \<in> set (readlines text1). \<exists>m1. search vk_re l1 = Some m1
                    \<and> group m1 1 = group m2 3)
                 \<and> (\<exists>sfx. search suffix_re (the (group m2 3)) = Some sfx
                       \<and> group sfx 1 \<noteq> Some ''URGB''))"
  then have "\<exists>tbl. vulkan_formats_loop Map.empty (readlines text1) = Inr tbl"
    by (intro vulkan_loop_ok) simp_all
  then obtain tbl where t: "vulkan_formats_loop Map.empty (readlines text1) = Inr tbl" by blast
  have "\<exists>fs'. formats_loop tbl [] (readlines text2) = Inr fs'"
  proof (rule formats_loop_ok)
    fix l2 m2 assume l2: "l2 \<in> set (readlines text2)" "search format_re l2 = Some m2"
    with a obtain l1 m1 sfx where l1: "l1 \<in> set (readlines text1)" "search vk_re l1 = Some m1"
      "group m1 1 = group m2 3"
      and s: "search suffix_re (the (group m2 3)) = Some sfx" "group sfx 1 \<noteq> Some ''URGB''"
      by blast
    from vk_re_groups [OF l1(2)] obtain v where v: "group m1 2 = Some v" by blast
    from vulkan_loop_stores [OF t l1(1,2)] v l1(3) have "the (group m2 3) \<in> dom tbl"
      by auto
    with s show "the (group m2 3) \<in> dom tbl \<and>
             (\<exists>sfx. search suffix_re (the (group m2 3)) = Some sfx \<and> group sfx 1 \<noteq> Some ''URGB'')"
      by blast
  qed
  then obtain fs' where l: "formats_loop tbl [] (readlines text2) = Inr fs'" by blast
  then have b: "build d w = Inr fs'" by (simp add: build_second [OF f1 t f2])
  from formats_loop_built [OF l]
  have all: "list_all2 (built tbl) (filter (\<lambda>l. search format_re l \<noteq> None) (readlines text2)) fs'"
    by simp
  have "list_all2 (\<lambda>l f. \<exists>m2 l1 m1. search format_re l = Some m2
                       \<and> group m2 3 = Some (vulkan_name f) \<and> l1 \<in> set (readlines text1)
                       \<and> search vk_re l1 = Some m1 \<and> group m1 1 = Some (vulkan_name f)
                       \<and> group m1 2 = Some (vulkan f))
                     (filter (\<lambda>l. search format_re l \<noteq> None) (readlines text2)) fs'"
  proof (rule list_all2_mono [OF all])
    fix l f assume "built tbl l f"
    from built_record [OF this] obtain m2 where
      m2: "search format_re l = Some m2" "group m2 3 = Some (vulkan_name f)"
        "tbl (vulkan_name f) = Some (vulkan f)" by blast
    from vulkan_loop_Inr [OF t m2(3)] obtain l1 m1 where
      "l1 \<in> set (readlines text1)" "search vk_re l1 = Some m1"
      "group m1 1 = Some (vulkan_name f)" "group m1 2 = Some (vulkan f)" by auto
    with m2 show "\<exists>m2 l1 m1. search format_re l = Some m2
                       \<and> group m2 3 = Some (vulkan_name f) \<and> l1 \<in> set (readlines text1)
                       \<and> search vk_re l1 = Some m1 \<and> group m1 1 = Some (vulkan_name f)
                       \<and> group m1 2 = Some (vulkan f)" by blast
  qed
  with b show "\<exists>fs'. build d w = Inr fs'
                 \<and> list_all2 (\<lambda>l f. \<exists>m2 l1 m1. search format_re l = Some m2
                       \<and> group m2 3 = Some (vulkan_name f) \<and> l1 \<in> set (readlines text1)
                       \<and> search vk_re l1 = Some m1 \<and> group m1 1 = Some (vulkan_name f)
                       \<and> group m1 2 = Some (vulkan f))
                     (filter (\<lambda>l. search format_re l \<noteq> None) (readlines text2)) fs'" by blast
qed

text \<open>
  On the one-line headers the run builds the record with the value \<^verbatim>\<open>9\<close>: the table
  maps \<^verbatim>\<open>R8_UNORM\<close> to \<^verbatim>\<open>9\<close>, and the conditions of (2) hold there.
\<close>

theorem source_value_from_table_witness:
  "build ''magnum'' (world_of (''  VK_FORMAT_R8_UNORM = 9,'' @ [CHR 0x0A])
       (''  R8Unorm = VK_FORMAT_R8_UNORM,'' @ [CHR 0x0A]))
     = Inr [\<lparr>compressed = False, magnum = ''R8Unorm'', vulkan_name = ''R8_UNORM'',
              vulkan = ''9'', suffix = ''UNORM''\<rparr>]
   \<and> (\<exists>tbl. vulkan_formats_loop Map.empty (readlines (''  VK_FORMAT_R8_UNORM = 9,'' @ [CHR 0x0A]))
               = Inr tbl
          \<and> tbl ''R8_UNORM'' = Some ''9'')
   \<and> (\<exists>fs. build ''magnum'' (world_of (''  VK_FORMAT_R8_UNORM = 9,'' @ [CHR 0x0A])
               (''  R8Unorm = VK_FORMAT_R8_UNORM,'' @ [CHR 0x0A])) = Inr fs
          \<and> map vulkan_name fs = [''R8_UNORM''] \<and> map vulkan fs = [''9''])"
proof (intro conjI)
  let ?L = "''  VK_FORMAT_R8_UNORM = 9,'' @ [CHR 0x0A]"
  let ?F = "''  R8Unorm = VK_FORMAT_R8_UNORM,'' @ [CHR 0x0A]"
  let ?r = "\<lparr>compressed = False, magnum = ''R8Unorm'', vulkan_name = ''R8_UNORM'',
              vulkan = ''9'', suffix = ''UNORM''\<rparr>"
  note T = source_value_from_table [OF world_of_files(1) [of ?L ?F] world_of_files(2) [of ?L ?F]]
  obtain mv where mv: "search vk_re ?L = Some mv" "group mv 1 = Some ''R8_UNORM''"
    "group mv 2 = Some ''9''" using search_vk_example by blast
  obtain mf where mf: "search format_re ?F = Some mf" "group mf 3 = Some ''R8_UNORM''"
    using search_format_r8 by blast
  obtain sfx where sfx: "search suffix_re ''R8_UNORM'' = Some sfx" "group sfx 1 = Some ''UNORM''"
    using search_suffix_r8 by blast
  show "build ''magnum'' (world_of ?L ?F) = Inr [?r]" by (rule build_example)

  from T [of "[?r]", THEN conjunct1, rule_format, OF build_example]
  obtain tbl where t: "vulkan_formats_loop Map.empty (readlines ?L) = Inr tbl"
    and s: "\<forall>l \<in> set (readlines ?L). \<forall>m. search vk_re l = Some m \<longrightarrow>
              tbl (the (group m 1)) = group m 2" by blast
  have "?L \<in> set (readlines ?L)" unfolding readlines_one by simp
  with s mv(1) have "tbl (the (group mv 1)) = group mv 2" by blast
  then have "tbl ''R8_UNORM'' = Some ''9''" unfolding mv(2,3) option.sel .
  with t show "\<exists>tbl. vulkan_formats_loop Map.empty (readlines ?L) = Inr tbl
          \<and> tbl ''R8_UNORM'' = Some ''9''" by blast

  have A: "distinct (map (\<lambda>l. the (group (the (search vk_re l)) 1))
                      (filter (\<lambda>l. search vk_re l \<noteq> None) (readlines ?L)))"
    unfolding readlines_one by simp
  have B: "\<forall>l2 \<in> set (readlines ?F). \<forall>m2. search format_re l2 = Some m2 \<longrightarrow>
                 (\<exists>l1 \<in> set (readlines ?L). \<exists>m1. search vk_re l1 = Some m1
                    \<and> group m1 1 = group m2 3)
                 \<and> (\<exists>sfx. search suffix_re (the (group m2 3)) = Some sfx
                       \<and> group sfx 1 \<noteq> Some ''URGB'')"
  proof (intro ballI allI impI)
    fix l2 m2 assume "l2 \<in> set (readlines ?F)" "search format_re l2 = Some m2"
    then have "l2 = ?F" unfolding readlines_format_r8 by simp
    with \<open>search format_re l2 = Some m2\<close> mf(1) have m2: "m2 = mf" by simp
    have "?L \<in> set (readlines ?L)" unfolding readlines_one by simp
    moreover have "group mv 1 = group m2 3" unfolding m2 mv(2) mf(2) ..
    moreover have "search suffix_re (the (group m2 3)) = Some sfx"
      unfolding m2 mf(2) option.sel by (rule sfx(1))
    moreover have "group sfx 1 \<noteq> Some ''URGB''" unfolding sfx(2) by simp
    ultimately show "(\<exists>l1 \<in> set (readlines ?L). \<exists>m1. search vk_re l1 = Some m1
                    \<and> group m1 1 = group m2 3)
                 \<and> (\<exists>sfx. search suffix_re (the (group m2 3)) = Some sfx
                       \<and> group sfx 1 \<noteq> Some ''URGB'')"
      using mv(1) by blast
  qed
  from T [of "[]", THEN conjunct2, rule_format, OF conjI [OF A B]]
  obtain fs where b: "build ''magnum'' (world_of ?L ?F) = Inr fs"
    and all: "list_all2 (\<lambda>l f. \<exists>m2 l1 m1. search format_re l = Some m2
                       \<and> group m2 3 = Some (vulkan_name f) \<and> l1 \<in> set (readlines ?L)
                       \<and> search vk_re l1 = Some m1 \<and> group m1 1 = Some (vulkan_name f)
                       \<and> group m1 2 = Some (vulkan f))
                     (filter (\<lambda>l. search format_re l \<noteq> None) (readlines ?F)) fs" by blast
  have q: "filter (\<lambda>l. search format_re l \<noteq> None) (readlines ?F) = [?F]"
    unfolding readlines_format_r8 using mf(1) by simp
  from all [unfolded q list_all2_Cons1 readlines_one] obtain f m2 l1 m1 where
    f: "fs = [f]" "search format_re ?F = Some m2" "group m2 3 = Some (vulkan_name f)"
      "l1 \<in> set [?L]" "search vk_re l1 = Some m1" "group m1 2 = Some (vulkan f)"
    by auto
  from f(2,3) mf have "vulkan_name f = ''R8_UNORM''" by simp
  moreover from f(4,5,6) mv have "vulkan f = ''9''" by simp
  ultimately show "\<exists>fs. build ''magnum'' (world_of ?L ?F) = Inr fs
          \<and> map vulkan_name fs = [''R8_UNORM''] \<and> map vulkan fs = [''9'']"
    using b f(1) by simp
qed

text \<open>
  Claim C6, amended. (a) The suffix of every record is group 1 of the suffix pattern on
  the record's identifier: \<^verbatim>\<open>U\<close> or \<^verbatim>\<open>S\<close> followed by one of \<^verbatim>\<open>NORM\<close>, \<^verbatim>\<open>INT\<close>, \<^verbatim>\<open>FLOAT\<close>,
  \<^verbatim>\<open>RGB\<close>. (b) An identifier of word characters in which \<^verbatim>\<open>_SFLOAT\<close> follows a non-empty
  prefix, and in which no classification token starts further right, classifies as
  \<^verbatim>\<open>SFLOAT\<close>. (c) A qualifying line whose identifier the pattern does not match ends
  the loop with an \<open>AssertionError\<close>.
\<close>

theorem suffix_derivation:
  "(build d w = Inr fs \<longrightarrow>
      (\<forall>f \<in> set fs. \<exists>sfx m k. search suffix_re (vulkan_name f) = Some sfx
          \<and> group sfx 1 = Some (suffix f) \<and> suffix f = m # k \<and> m \<in> set ''US''
          \<and> k \<in> set [''NORM'', ''INT'', ''FLOAT'', ''RGB'']))
   \<and> (list_all is_word name \<and> name = p @ ''_SFLOAT'' @ q \<and> p \<noteq> []
        \<and> (\<forall>p' m' k' q'. name = p' @ ''_'' @ [m'] @ k' @ q' \<and> m' \<in> set ''U|S''
              \<and> k' \<in> set [''NORM'', ''INT'', ''FLOAT'', ''RGB''] \<longrightarrow> length p' \<le> length p)
      \<longrightarrow> (\<exists>sfx. search suffix_re name = Some sfx \<and> group sfx 1 = Some ''SFLOAT''))
   \<and> (search format_re l = Some mt \<and> search suffix_re (the (group mt 3)) = None
      \<longrightarrow> formats_loop tbl fs0 (l # ls) = Inl AssertionError)"
proof (intro conjI impI ballI)
  fix f assume "build d w = Inr fs" "f \<in> set fs"
  from build_built [OF this] obtain tbl' l' where "built tbl' l' f" by blast
  from built_suffix [OF this]
  show "\<exists>sfx m k. search suffix_re (vulkan_name f) = Some sfx
          \<and> group sfx 1 = Some (suffix f) \<and> suffix f = m # k \<and> m \<in> set ''US''
          \<and> k \<in> set [''NORM'', ''INT'', ''FLOAT'', ''RGB'']" by blast
next
  assume a: "list_all is_word name \<and> name = p @ ''_SFLOAT'' @ q \<and> p \<noteq> []
        \<and> (\<forall>p' m' k' q'. name = p' @ ''_'' @ [m'] @ k' @ q' \<and> m' \<in> set ''U|S''
              \<and> k' \<in> set [''NORM'', ''INT'', ''FLOAT'', ''RGB''] \<longrightarrow> length p' \<le> length p)"
  have "\<exists>sfx. search suffix_re name = Some sfx \<and> group sfx 1 = Some (CHR ''S'' # ''FLOAT'')"
  proof (rule suffix_rightmost_decomp [of name p "CHR ''S''" "''FLOAT''" q])
    show "list_all is_word name" using a by blast
    show "name = p @ ''_'' @ [CHR ''S''] @ ''FLOAT'' @ q" using a by simp
    show "p \<noteq> []" using a by blast
    show "CHR ''S'' \<in> set ''U|S''" by simp
    show "''FLOAT'' \<in> set [''NORM'', ''INT'', ''FLOAT'', ''RGB'']" by simp
    show "length p' \<le> length p" if "name = p' @ ''_'' @ [m'] @ k' @ q'" "m' \<in> set ''U|S''"
      "k' \<in> set [''NORM'', ''INT'', ''FLOAT'', ''RGB'']" for p' m' k' q'
      using a that by blast
  qed
  then show "\<exists>sfx. search suffix_re name = Some sfx \<and> group sfx 1 = Some ''SFLOAT''" .
next
  assume "search format_re l = Some mt \<and> search suffix_re (the (group mt 3)) = None"
  then show "formats_loop tbl fs0 (l # ls) = Inl AssertionError"
    by (simp add: Let_def)
qed

text \<open>
  The three parts on \<^verbatim>\<open>R8_UNORM\<close>, \<^verbatim>\<open>R32_SFLOAT\<close> and \<^verbatim>\<open>UNDEFINED\<close>.
\<close>

theorem suffix_derivation_witness:
  "(\<exists>sfx. search suffix_re ''R8_UNORM'' = Some sfx \<and> group sfx 1 = Some ''UNORM'')
   \<and> (\<exists>sfx. search suffix_re ''R32_SFLOAT'' = Some sfx \<and> group sfx 1 = Some ''SFLOAT'')
   \<and> formats_loop [''UNDEFINED'' \<mapsto> ''0''] []
        [''  Undefined = VK_FORMAT_UNDEFINED,'' @ [CHR 0x0A]] = Inl AssertionError"
proof (intro conjI)
  from suffix_derivation [THEN conjunct1, rule_format, OF build_example]
  show "\<exists>sfx. search suffix_re ''R8_UNORM'' = Some sfx \<and> group sfx 1 = Some ''UNORM''"
    by fastforce
next
  have w: "list_all is_word ''R32_SFLOAT''" by (simp add: is_word_def)
  have r: "\<forall>p' m' k' q'. ''R32_SFLOAT'' = p' @ ''_'' @ [m'] @ k' @ q' \<and> m' \<in> set ''U|S''
              \<and> k' \<in> set [''NORM'', ''INT'', ''FLOAT'', ''RGB''] \<longrightarrow> length p' \<le> length ''R32''"
    using rightmost_by_eval [OF search_suffix_r32] by blast
  have e: "''R32_SFLOAT'' = ''R32'' @ ''_SFLOAT'' @ []" "''R32'' \<noteq> []" by simp_all
  from suffix_derivation [THEN conjunct2, THEN conjunct1, rule_format, of "''R32_SFLOAT''" "''R32''" "[]"]
    w r e
  show "\<exists>sfx. search suffix_re ''R32_SFLOAT'' = Some sfx \<and> group sfx 1 = Some ''SFLOAT''"
    by blast
next
  obtain m where m: "search format_re (''  Undefined = VK_FORMAT_UNDEFINED,'' @ [CHR 0x0A]) = Some m"
    "group m 3 = Some ''UNDEFINED''"
    using search_format_undefined by blast
  from suffix_derivation [THEN conjunct2, THEN conjunct2, rule_format,
      of "''  Undefined = VK_FORMAT_UNDEFINED,'' @ [CHR 0x0A]" m]
    m search_suffix_undefined
  show "formats_loop [''UNDEFINED'' \<mapsto> ''0''] []
        [''  Undefined = VK_FORMAT_UNDEFINED,'' @ [CHR 0x0A]] = Inl AssertionError"
    by simp
qed

text \<open>
  As the claim was stated, any identifier that contains \<^verbatim>\<open>_SFLOAT\<close> would classify as
  \<^verbatim>\<open>SFLOAT\<close>. The identifier \<^verbatim>\<open>D32_SFLOAT_S8_UINT\<close> contains it and classifies as
  \<^verbatim>\<open>UINT\<close>.
\<close>

theorem suffix_derivation_counterexample:
  "formats_loop [''D32_SFLOAT_S8_UINT'' \<mapsto> ''130''] []
     [''  Depth32FStencil8UI = VK_FORMAT_D32_SFLOAT_S8_UINT,'' @ [CHR 0x0A]]
   = Inr [\<lparr>compressed = False, magnum = ''Depth32FStencil8UI'',
           vulkan_name = ''D32_SFLOAT_S8_UINT'', vulkan = ''130'', suffix = ''UINT''\<rparr>]"
  by code_simp

text \<open>
  Claim C2. The partition splits the records by \<open>compressed\<close>: the first table gets the
  records that are not compressed, the second those that are compressed and whose name
  does not start with \<^verbatim>\<open>Pvrtc2\<close>; both in the order of the list, no record in both, and
  together all records but the compressed \<^verbatim>\<open>Pvrtc2\<close> ones. The line
  \<^verbatim>\<open>  CompressedBc1RGBAUnorm = VK_FORMAT_BC1_RGBA_UNORM_BLOCK,\<close> gives a record \<open>r\<close> with
  \<open>compressed\<close> true, and \<open>r\<close> is in the second group only.
\<close>

theorem partition_split:
  assumes "tbl ''BC1_RGBA_UNORM_BLOCK'' = Some v"
    and "r = \<lparr>compressed = True, magnum = ''Bc1RGBAUnorm'', vulkan_name = ''BC1_RGBA_UNORM_BLOCK'',
              vulkan = v, suffix = ''UNORM''\<rparr>"
  shows "(case partition_py compressed fs of (formats, cs) \<Rightarrow>
            let compressed_formats = filter (\<lambda>f. \<not> startswith (magnum f) ''Pvrtc2'') cs in
              formats = filter (\<lambda>f. \<not> compressed f) fs
            \<and> compressed_formats
                = filter (\<lambda>f. compressed f \<and> \<not> startswith (magnum f) ''Pvrtc2'') fs
            \<and> set formats \<inter> set compressed_formats = {}
            \<and> set formats \<union> set compressed_formats
                = {f \<in> set fs. \<not> (compressed f \<and> startswith (magnum f) ''Pvrtc2'')}
            \<and> subseq formats fs \<and> subseq compressed_formats fs
            \<and> files (emit fs w) ''formatMapping.hpp'' =
                 Some (table ''/* VkFormat, PixelFormat, Implementation::VkFormatSuffix */'' formats)
            \<and> files (emit fs w) ''compressedFormatMapping.hpp'' =
                 Some (table ''/* VkFormat, CompressedPixelFormat, Implementation::VkFormatSuffix */''
                         compressed_formats)
            \<and> (r \<in> set fs \<longrightarrow> r \<in> set compressed_formats \<and> r \<notin> set formats))
         \<and> formats_loop tbl []
              [''  CompressedBc1RGBAUnorm = VK_FORMAT_BC1_RGBA_UNORM_BLOCK,'' @ [CHR 0x0A]] = Inr [r]"
proof -
  have f: "filter (\<lambda>f. \<not> startswith (magnum f) ''Pvrtc2'') (filter compressed fs)
      = filter (\<lambda>f. compressed f \<and> \<not> startswith (magnum f) ''Pvrtc2'') fs"
    by (simp add: conj_commute)
  have r: "compressed r" "\<not> startswith (magnum r) ''Pvrtc2''"
    by (simp_all add: assms(2) startswith_def)
  have "set (filter (\<lambda>f. \<not> compressed f) fs) \<union>
          set (filter (\<lambda>f. compressed f \<and> \<not> startswith (magnum f) ''Pvrtc2'') fs)
        = {f \<in> set fs. \<not> (compressed f \<and> startswith (magnum f) ''Pvrtc2'')}"
    by auto
  moreover have "set (filter (\<lambda>f. \<not> compressed f) fs) \<inter>
          set (filter (\<lambda>f. compressed f \<and> \<not> startswith (magnum f) ''Pvrtc2'') fs) = {}"
    by auto
  moreover have "r \<in> set fs \<longrightarrow>
      r \<in> set (filter (\<lambda>f. compressed f \<and> \<not> startswith (magnum f) ''Pvrtc2'') fs)
      \<and> r \<notin> set (filter (\<lambda>f. \<not> compressed f) fs)"
    using r by simp
  ultimately show ?thesis
    using formats_loop_bc1 [of tbl v, OF assms(1)] emit_files [of fs w]
    unfolding partition_py_def prod.case Let_def f assms(2)
    by simp
qed

text \<open>
  Three records, one of each kind, and the record of the \<^verbatim>\<open>Bc1\<close> line.
\<close>

theorem partition_split_witness:
  "partition_py compressed
     [\<lparr>compressed = False, magnum = ''R8Unorm'', vulkan_name = ''R8_UNORM'', vulkan = ''9'',
        suffix = ''UNORM''\<rparr>,
      \<lparr>compressed = True, magnum = ''Bc1RGBAUnorm'', vulkan_name = ''BC1_RGBA_UNORM_BLOCK'',
        vulkan = ''133'', suffix = ''UNORM''\<rparr>,
      \<lparr>compressed = True, magnum = ''Pvrtc2RGBA2bppUnorm'',
        vulkan_name = ''PVRTC2_2BPP_UNORM_BLOCK_IMG'', vulkan = ''1000054004'',
        suffix = ''UNORM''\<rparr>]
   = ([\<lparr>compressed = False, magnum = ''R8Unorm'', vulkan_name = ''R8_UNORM'', vulkan = ''9'',
        suffix = ''UNORM''\<rparr>],
      [\<lparr>compressed = True, magnum = ''Bc1RGBAUnorm'', vulkan_name = ''BC1_RGBA_UNORM_BLOCK'',
        vulkan = ''133'', suffix = ''UNORM''\<rparr>,
       \<lparr>compressed = True, magnum = ''Pvrtc2RGBA2bppUnorm'',
        vulkan_name = ''PVRTC2_2BPP_UNORM_BLOCK_IMG'', vulkan = ''1000054004'',
        suffix = ''UNORM''\<rparr>])
   \<and> filter (\<lambda>f. \<not> startswith (magnum f) ''Pvrtc2'')
       [\<lparr>compressed = True, magnum = ''Bc1RGBAUnorm'', vulkan_name = ''BC1_RGBA_UNORM_BLOCK'',
        vulkan = ''133'', suffix = ''UNORM''\<rparr>,
       \<lparr>compressed = True, magnum = ''Pvrtc2RGBA2bppUnorm'',
        vulkan_name = ''PVRTC2_2BPP_UNORM_BLOCK_IMG'', vulkan = ''1000054004'',
        suffix = ''UNORM''\<rparr>]
     = [\<lparr>compressed = True, magnum = ''Bc1RGBAUnorm'', vulkan_name = ''BC1_RGBA_UNORM_BLOCK'',
        vulkan = ''133'', suffix = ''UNORM''\<rparr>]
   \<and> formats_loop [''BC1_RGBA_UNORM_BLOCK'' \<mapsto> ''133''] []
        [''  CompressedBc1RGBAUnorm = VK_FORMAT_BC1_RGBA_UNORM_BLOCK,'' @ [CHR 0x0A]]
     = Inr [\<lparr>compressed = True, magnum = ''Bc1RGBAUnorm'', vulkan_name = ''BC1_RGBA_UNORM_BLOCK'',
        vulkan = ''133'', suffix = ''UNORM''\<rparr>]"
proof -
  have t: "[''BC1_RGBA_UNORM_BLOCK'' \<mapsto> ''133''] ''BC1_RGBA_UNORM_BLOCK'' = Some ''133''"
    by simp
  from partition_split [where tbl = "[''BC1_RGBA_UNORM_BLOCK'' \<mapsto> ''133'']" and v = "''133''"
      and fs = "[]" and w = "world_of [] []", OF t refl, THEN conjunct2]
  show ?thesis by (simp add: partition_py_def startswith_def)
qed

text \<open>
  Claim C8. The result of a run is a function of the two headers: two worlds with the same
  headers end the same way and, when the run succeeds, with the same contents of both
  output files, whatever else the worlds hold. Running the script again on what it left
  ends the same way and leaves every file as it is.
\<close>

theorem outputs_depend_on_inputs_only:
  assumes "files w1 (vulkan_header d) = files w2 (vulkan_header d)"
    and "files w1 (format_header d) = files w2 (format_header d)"
  shows "snd (script d w1) = snd (script d w2)
         \<and> (snd (script d w1) = None \<longrightarrow>
              files (fst (script d w1)) ''formatMapping.hpp''
                = files (fst (script d w2)) ''formatMapping.hpp''
              \<and> files (fst (script d w1)) ''compressedFormatMapping.hpp''
                = files (fst (script d w2)) ''compressedFormatMapping.hpp'')
         \<and> snd (script d (fst (script d w1))) = snd (script d w1)
         \<and> files (fst (script d (fst (script d w1)))) = files (fst (script d w1))"
proof -
  have b: "build d w1 = build d w2" by (rule build_cong [OF assms])
  show ?thesis
  proof (cases "build d w1")
    case (Inl e)
    with b have "build d w2 = Inl e" by simp
    with Inl show ?thesis by (simp add: script_def)
  next
    case (Inr fs)
    with b have "build d w2 = Inr fs" by simp
    with Inr show ?thesis
      by (simp add: script_def build_emit emit_files emit_twice)
  qed
qed

text \<open>
  A stale \<^verbatim>\<open>formatMapping.hpp\<close> and earlier output on the terminal do not change what is
  written.
\<close>

theorem outputs_depend_on_inputs_only_witness:
  "files (fst (script ''magnum'' (world_of (''  VK_FORMAT_R8_UNORM = 9,'' @ [CHR 0x0A])
          (''  R8Unorm = VK_FORMAT_R8_UNORM,'' @ [CHR 0x0A])))) ''formatMapping.hpp''
   = files (fst (script ''magnum''
       ((world_of (''  VK_FORMAT_R8_UNORM = 9,'' @ [CHR 0x0A])
          (''  R8Unorm = VK_FORMAT_R8_UNORM,'' @ [CHR 0x0A]))
        \<lparr>files := (files (world_of (''  VK_FORMAT_R8_UNORM = 9,'' @ [CHR 0x0A])
                      (''  R8Unorm = VK_FORMAT_R8_UNORM,'' @ [CHR 0x0A])))
                    (''formatMapping.hpp'' \<mapsto> ''stale''),
          stdout := ''earlier output''\<rparr>))) ''formatMapping.hpp''"
proof -
  let ?w1 = "world_of (''  VK_FORMAT_R8_UNORM = 9,'' @ [CHR 0x0A])
          (''  R8Unorm = VK_FORMAT_R8_UNORM,'' @ [CHR 0x0A])"
  let ?w2 = "?w1\<lparr>files := (files ?w1)(''formatMapping.hpp'' \<mapsto> ''stale''),
          stdout := ''earlier output''\<rparr>"
  have a: "files ?w1 (vulkan_header ''magnum'') = files ?w2 (vulkan_header ''magnum'')"
    "files ?w1 (format_header ''magnum'') = files ?w2 (format_header ''magnum'')"
    by (simp_all add: header_paths)
  have n: "snd (script ''magnum'' ?w1) = None"
    unfolding script_def build_example by simp
  from outputs_depend_on_inputs_only [OF a] n show ?thesis by blast
qed

end
